theory Spec2Isabelle
  imports Main "HOL-Library.AList"
begin

section \<open>Strings as the parser sees them\<close>

text \<open>
  Lines are byte strings (\<open>char list\<close>).  White space is the ASCII set that
  \<^verbatim>\<open>str.rstrip()\<close>, \<^verbatim>\<open>str.split()\<close> and the regular expression class
  \<^verbatim>\<open>\s\<close> agree on: blank, tab, line feed, carriage return, vertical tab, form feed.
\<close>

definition is_space :: "char \<Rightarrow> bool" where
  "is_space c = (c \<in> set [CHR '' '', CHR 0x09, CHR 0x0A, CHR 0x0D, CHR 0x0B, CHR 0x0C])"

definition rstrip :: "string \<Rightarrow> string" where
  "rstrip s = rev (dropWhile is_space (rev s))"

definition lower_char :: "char \<Rightarrow> char" where
  "lower_char c =
     (case map_of (zip ''ABCDEFGHIJKLMNOPQRSTUVWXYZ'' ''abcdefghijklmnopqrstuvwxyz'') c of
        None \<Rightarrow> c | Some d \<Rightarrow> d)"

definition lower :: "string \<Rightarrow> string" where
  "lower s = map lower_char s"

text \<open>\<^verbatim>\<open>s.split(sep)\<close> with an explicit one-character separator: every occurrence
  of the separator cuts, empty pieces are kept.\<close>

fun split_on :: "char \<Rightarrow> string \<Rightarrow> string list" where
  "split_on sep [] = [[]]"
| "split_on sep (c # cs) =
     (if c = sep then [] # split_on sep cs
      else (case split_on sep cs of
              [] \<Rightarrow> [[c]]
            | w # ws \<Rightarrow> (c # w) # ws))"

text \<open>\<^verbatim>\<open>s[a:-1]\<close>: drop the last character, then the first \<open>a\<close>.\<close>

definition slice_to_last :: "nat \<Rightarrow> string \<Rightarrow> string" where
  "slice_to_last a s = drop a (butlast s)"

text \<open>
  \<^verbatim>\<open>re.match(r'^(\S+):\s*(\S.*)$', line)\<close>.  Group 1 is a non-empty run of
  non-blank characters that starts the line and is followed by a colon; the run is
  greedy, so among the colons of the first blank-free token the last one is taken for
  which the rest of the line still holds a value.  Group 2 starts at the first non-blank
  character after that colon and runs to the end of the line; \<^verbatim>\<open>.\<close> does not match
  a line feed.  \<open>match_at line k\<close> is the match with group 1 of length \<open>k\<close>.
\<close>

definition match_at :: "string \<Rightarrow> nat \<Rightarrow> (string \<times> string) option" where
  "match_at line k =
     (let tok = takeWhile (\<lambda>c. \<not> is_space c) line;
          val = dropWhile is_space (drop (Suc k) line)
      in if 0 < k \<and> k < length tok \<and> line ! k = CHR '':'' \<and> val \<noteq> [] \<and> CHR 0x0A \<notin> set val
         then Some (take k line, val) else None)"

fun match_from :: "string \<Rightarrow> nat \<Rightarrow> (string \<times> string) option" where
  "match_from line 0 = None"
| "match_from line (Suc k) =
     (case match_at line (Suc k) of
        Some m \<Rightarrow> Some m
      | None \<Rightarrow> match_from line k)"

definition re_match_field :: "string \<Rightarrow> (string \<times> string) option" where
  "re_match_field line = match_from line (length line)"

section \<open>The record model\<close>

text \<open>
  A Term object lives in a store and is named by its address; \<open>parents\<close>,
  \<open>children\<close> and the relationship sets hold addresses.  Attributes that the class
  does not declare (the optional ones, set with \<^verbatim>\<open>setattr\<close>) are kept in \<open>attrs\<close>,
  keyed by attribute name.
\<close>

type_synonym addr = nat

datatype attr =
    Scalar string
  | StrSet "string list"
  | RawNested "(string \<times> string list) list"
  | Rel "(string \<times> addr list) list"

record GOTerm =
  goid :: string
  name :: string
  namespace :: string
  raw_parents :: "string list"
  parents :: "addr list"
  children :: "addr list"
  level :: "nat option"
  depth :: "nat option"
  is_obsolete :: bool
  alt_ids :: "string list"
  attrs :: "(string \<times> attr) list"

definition GOTerm_init :: GOTerm where
  "GOTerm_init =
     \<lparr> goid = [], name = [], namespace = [], raw_parents = [], parents = [],
       children = [], level = None, depth = None, is_obsolete = False, alt_ids = [],
       attrs = [] \<rparr>"

text \<open>The names \<^verbatim>\<open>hasattr\<close> finds on every GOTerm: the fields set by
  \<^verbatim>\<open>__init__\<close>, the methods of the class and the names every instance of a class
  carries.  (The further double-underscore names inherited from \<^verbatim>\<open>object\<close> are not
  listed.)\<close>

definition GOTerm_declared :: "string list" where
  "GOTerm_declared =
     [''id'', ''name'', ''namespace'', ''_parents'', ''parents'', ''children'', ''level'',
      ''depth'', ''is_obsolete'', ''alt_ids'', ''has_parent'', ''has_child'',
      ''get_all_parents'', ''get_all_children'', ''get_all_parent_edges'',
      ''get_all_child_edges'', ''write_hier_rec'', ''__init__'', ''__str__'', ''__repr__'',
      ''__doc__'', ''__dict__'', ''__class__'', ''__module__'']"

definition hasattr :: "GOTerm \<Rightarrow> string \<Rightarrow> bool" where
  "hasattr rec n = (n \<in> set GOTerm_declared \<or> map_of (attrs rec) n \<noteq> None)"

definition setattr :: "GOTerm \<Rightarrow> string \<Rightarrow> attr \<Rightarrow> GOTerm" where
  "setattr rec n v = rec\<lparr>attrs := AList.update n v (attrs rec)\<rparr>"

definition delattr :: "GOTerm \<Rightarrow> string \<Rightarrow> GOTerm" where
  "delattr rec n = rec\<lparr>attrs := AList.delete n (attrs rec)\<rparr>"

record TypeDef =
  td_id :: string
  td_name :: string
  transitive_over :: "string list"
  inverse_of :: string

definition TypeDef_init :: TypeDef where
  "TypeDef_init = \<lparr> td_id = [], td_name = [], transitive_over = [], inverse_of = [] \<rparr>"

datatype error =
    Fatal string nat string
  | CouldNotRead string
  | AttrAlreadySet string string
  | OptionalAttrsArg
  | KeyError string
  | ValueError
  | AttributeError string
  | RuntimeError
  | TypeError
  | RecursionError

section \<open>OBOReader\<close>

record OBOReader =
  obo_file :: string
  optional_attrs :: "string list"
  format_version :: "string option"
  data_version :: "string option"
  typedefs :: "(string \<times> TypeDef) list"

definition attrs_req :: "string list" where
  "attrs_req = [''id'', ''alt_id'', ''name'', ''namespace'', ''is_a'', ''is_obsolete'']"

definition attrs_scalar :: "string list" where
  "attrs_scalar = [''comment'', ''defn'', ''is_class_level'', ''is_metadata_tag'',
                   ''is_transitive'', ''transitive_over'']"

definition attrs_nested :: "string list" where
  "attrs_nested = [''relationship'']"

text \<open>The argument \<^verbatim>\<open>optional_attrs\<close> of the constructor: absent, one string,
  a list or set of strings, or a value of another type.\<close>

datatype optional_arg = ArgNone | ArgStr string | ArgList "string list" | ArgOther

text \<open>What is at the path \<^verbatim>\<open>obo_file\<close>: the lines of the file, each with its
  terminator, or \<open>None\<close> when \<^verbatim>\<open>os.path.isfile\<close> finds no file there.\<close>

definition fnc :: "string \<Rightarrow> string" where
  "fnc aopt = (if aopt \<noteq> ''defn'' then aopt else ''def'')"

definition init_optional_attrs :: "optional_arg \<Rightarrow> error + string list" where
  "init_optional_attrs arg =
     (case arg of
        ArgNone \<Rightarrow> Inr []
      | ArgStr s \<Rightarrow> Inr (if s \<notin> set attrs_req then [fnc s] else [])
      | ArgList fs \<Rightarrow> Inr (remdups (map fnc (filter (\<lambda>f. f \<notin> set attrs_req) fs)))
      | ArgOther \<Rightarrow> Inl OptionalAttrsArg)"

definition OBOReader_init :: "string \<Rightarrow> string list option \<Rightarrow> optional_arg \<Rightarrow> error + OBOReader" where
  "OBOReader_init file contents arg =
     (case init_optional_attrs arg of
        Inl e \<Rightarrow> Inl e
      | Inr oa \<Rightarrow>
          if contents \<noteq> None
          then Inr \<lparr> obo_file = file, optional_attrs = oa, format_version = None,
                     data_version = None, typedefs = [] \<rparr>
          else Inl (CouldNotRead file))"

definition die :: "OBOReader \<Rightarrow> string \<Rightarrow> nat \<Rightarrow> error" where
  "die rd msg lnum = Fatal (obo_file rd) lnum msg"

text \<open>\<^verbatim>\<open>_chk_none\<close>: the field still holds its initial empty string.\<close>

definition chk_none :: "OBOReader \<Rightarrow> string \<Rightarrow> nat \<Rightarrow> error + unit" where
  "chk_none rd init_val lnum =
     (if init_val = [] then Inr () else Inl (die rd ''FIELD IS ALREADY INITIALIZED'' lnum))"

definition init_obo_version :: "OBOReader \<Rightarrow> string \<Rightarrow> OBOReader" where
  "init_obo_version rd line =
     (let rd1 = (if take 14 line = ''format-version''
                 then rd\<lparr>format_version := Some (slice_to_last 16 line)\<rparr> else rd)
      in if take 12 line = ''data-version''
         then rd1\<lparr>data_version := Some (slice_to_last 14 line)\<rparr> else rd1)"

definition init_goterm_ref :: "OBOReader \<Rightarrow> GOTerm option \<Rightarrow> string \<Rightarrow> nat \<Rightarrow> error + GOTerm" where
  "init_goterm_ref rd rec_curr nm lnum =
     (case rec_curr of
        None \<Rightarrow> Inr GOTerm_init
      | Some _ \<Rightarrow> Inl (die rd (''PREVIOUS '' @ nm @ '' WAS NOT TERMINATED AS EXPECTED'') lnum))"

definition init_typedef :: "OBOReader \<Rightarrow> 'a option \<Rightarrow> string \<Rightarrow> nat \<Rightarrow> error + TypeDef" where
  "init_typedef rd typedef_curr nm lnum =
     (case typedef_curr of
        None \<Rightarrow> Inr TypeDef_init
      | Some _ \<Rightarrow> Inl (die rd (''PREVIOUS '' @ nm @ '' WAS NOT TERMINATED AS EXPECTED'') lnum))"

text \<open>\<^verbatim>\<open>_add_nested\<close>: the value without its comment is cut at every blank and
  must give exactly two pieces; the target is appended to the list kept under the
  typedef in the attribute \<open>n\<close>, which must be a \<^verbatim>\<open>defaultdict(list)\<close>.\<close>

definition add_nested :: "GOTerm \<Rightarrow> string \<Rightarrow> string \<Rightarrow> error + GOTerm" where
  "add_nested rec n val =
     (case split_on CHR '' '' (rstrip (hd (split_on CHR ''!'' val))) of
        [typedef, target_term] \<Rightarrow>
          (case map_of (attrs rec) n of
             Some (RawNested d) \<Rightarrow>
               Inr (setattr rec n (RawNested (AList.update typedef
                      ((case map_of d typedef of None \<Rightarrow> [] | Some ts \<Rightarrow> ts) @ [target_term]) d)))
           | Some (Scalar _) \<Rightarrow> Inl TypeError
           | Some (StrSet _) \<Rightarrow> Inl TypeError
           | _ \<Rightarrow> Inl (AttributeError n))
      | _ \<Rightarrow> Inl ValueError)"

definition update_rec :: "GOTerm \<Rightarrow> string \<Rightarrow> string \<Rightarrow> error + GOTerm" where
  "update_rec rec name0 val =
     (let n = (if name0 = ''def'' then ''defn'' else name0) in
      if hasattr rec n then
        (if n \<notin> set attrs_scalar then
           (if n \<notin> set attrs_nested then
              (case map_of (attrs rec) n of
                 Some (StrSet vs) \<Rightarrow> Inr (setattr rec n (StrSet (List.insert val vs)))
               | _ \<Rightarrow> Inl (AttributeError n))
            else add_nested rec n val)
         else Inl (AttrAlreadySet n
                (case map_of (attrs rec) n of Some (Scalar s) \<Rightarrow> s | _ \<Rightarrow> [])))
      else if n \<in> set attrs_scalar then Inr (setattr rec n (Scalar val))
      else if n \<notin> set attrs_nested then Inr (setattr rec n (StrSet [val]))
      else add_nested (setattr rec (CHR ''_'' # n) (RawNested [])) (CHR ''_'' # n) val)"

definition add_to_ref :: "OBOReader \<Rightarrow> GOTerm \<Rightarrow> string \<Rightarrow> nat \<Rightarrow> error + GOTerm" where
  "add_to_ref rd rec_curr line lnum =
     (case re_match_field line of
        None \<Rightarrow> Inl (die rd (''UNEXPECTED FIELD CONTENT: '' @ line @ [CHR 0x0A]) lnum)
      | Some (field_name, field_value) \<Rightarrow>
          if field_name = ''id'' then
            (case chk_none rd (goid rec_curr) lnum of
               Inl e \<Rightarrow> Inl e
             | Inr _ \<Rightarrow> Inr (rec_curr\<lparr>goid := field_value\<rparr>))
          else if field_name = ''alt_id'' then
            Inr (rec_curr\<lparr>alt_ids := alt_ids rec_curr @ [field_value]\<rparr>)
          else if field_name = ''name'' then
            (case chk_none rd (name rec_curr) lnum of
               Inl e \<Rightarrow> Inl e
             | Inr _ \<Rightarrow> Inr (rec_curr\<lparr>name := field_value\<rparr>))
          else if field_name = ''namespace'' then
            (case chk_none rd (namespace rec_curr) lnum of
               Inl e \<Rightarrow> Inl e
             | Inr _ \<Rightarrow> Inr (rec_curr\<lparr>namespace := field_value\<rparr>))
          else if field_name = ''is_a'' then
            Inr (rec_curr\<lparr>raw_parents :=
                   raw_parents rec_curr @ [takeWhile (\<lambda>c. \<not> is_space c) field_value]\<rparr>)
          else if field_name = ''is_obsolete'' \<and> field_value = ''true'' then
            Inr (rec_curr\<lparr>is_obsolete := True\<rparr>)
          else if field_name \<in> set (optional_attrs rd) then
            update_rec rec_curr field_name field_value
          else Inr rec_curr)"

definition add_to_typedef :: "OBOReader \<Rightarrow> TypeDef \<Rightarrow> string \<Rightarrow> nat \<Rightarrow> error + TypeDef" where
  "add_to_typedef rd typedef_curr line lnum =
     (case re_match_field line of
        None \<Rightarrow> Inl (die rd (''UNEXPECTED FIELD CONTENT: '' @ line @ [CHR 0x0A]) lnum)
      | Some (field_name, raw_value) \<Rightarrow>
          let field_value = rstrip (hd (split_on CHR ''!'' raw_value)) in
          if field_name = ''id'' then
            (case chk_none rd (td_id typedef_curr) lnum of
               Inl e \<Rightarrow> Inl e
             | Inr _ \<Rightarrow> Inr (typedef_curr\<lparr>td_id := field_value\<rparr>))
          else if field_name = ''name'' then
            (case chk_none rd (td_name typedef_curr) lnum of
               Inl e \<Rightarrow> Inl e
             | Inr _ \<Rightarrow> Inr (typedef_curr\<lparr>td_name := field_value\<rparr>))
          else if field_name = ''transitive_over'' then
            Inr (typedef_curr\<lparr>transitive_over := transitive_over typedef_curr @ [field_value]\<rparr>)
          else if field_name = ''inverse_of'' then
            (case chk_none rd (inverse_of typedef_curr) lnum of
               Inl e \<Rightarrow> Inl e
             | Inr _ \<Rightarrow> Inr (typedef_curr\<lparr>inverse_of := field_value\<rparr>))
          else Inr typedef_curr)"

text \<open>
  The state of the generator \<^verbatim>\<open>__iter__\<close> between two lines: the reader (whose
  version fields and typedef table the loop updates), the two current-record slots and
  the records yielded so far.
\<close>

record iter_state =
  rd :: OBOReader
  rec_curr :: "GOTerm option"
  typedef_curr :: "TypeDef option"
  yielded :: "GOTerm list"

definition iter_start :: "OBOReader \<Rightarrow> iter_state" where
  "iter_start r = \<lparr> rd = r, rec_curr = None, typedef_curr = None, yielded = [] \<rparr>"

text \<open>The body of the loop over \<^verbatim>\<open>enumerate(fstream)\<close> for one line.\<close>

definition iter_line :: "iter_state \<Rightarrow> nat \<Rightarrow> string \<Rightarrow> error + iter_state" where
  "iter_line s0 lnum line0 =
     (let s = (if data_version (rd s0) = None
               then s0\<lparr>rd := init_obo_version (rd s0) line0\<rparr> else s0) in
      if lower (take 6 line0) = ''[term]'' then
        (case init_goterm_ref (rd s) (rec_curr s) ''Term'' lnum of
           Inl e \<Rightarrow> Inl e
         | Inr r \<Rightarrow> Inr (s\<lparr>rec_curr := Some r\<rparr>))
      else if lower (take 9 line0) = ''[typedef]'' then
        (case init_typedef (rd s) (rec_curr s) ''Typedef'' lnum of
           Inl e \<Rightarrow> Inl e
         | Inr t \<Rightarrow> Inr (s\<lparr>typedef_curr := Some t\<rparr>))
      else if rec_curr s \<noteq> None \<or> typedef_curr s \<noteq> None then
        (let line = rstrip line0 in
         if CHR '':'' \<in> set line then
           (case rec_curr s of
              Some r \<Rightarrow>
                (case add_to_ref (rd s) r line lnum of
                   Inl e \<Rightarrow> Inl e
                 | Inr r' \<Rightarrow> Inr (s\<lparr>rec_curr := Some r'\<rparr>))
            | None \<Rightarrow>
                (case typedef_curr s of
                   Some t \<Rightarrow>
                     (case add_to_typedef (rd s) t line lnum of
                        Inl e \<Rightarrow> Inl e
                      | Inr t' \<Rightarrow> Inr (s\<lparr>typedef_curr := Some t'\<rparr>))
                 | None \<Rightarrow> Inr s))
         else if line = [] then
           (case rec_curr s of
              Some r \<Rightarrow> Inr (s\<lparr>yielded := yielded s @ [r], rec_curr := None\<rparr>)
            | None \<Rightarrow>
                (case typedef_curr s of
                   Some t \<Rightarrow>
                     Inr (s\<lparr>rd := (rd s)\<lparr>typedefs := AList.update (td_id t) t (typedefs (rd s))\<rparr>,
                            typedef_curr := None\<rparr>)
                 | None \<Rightarrow> Inr s))
         else Inl (die (rd s) (''UNEXPECTED LINE CONTENT: '' @ line) lnum))
      else Inr s)"

fun iter_lines :: "iter_state \<Rightarrow> nat \<Rightarrow> string list \<Rightarrow> error + iter_state" where
  "iter_lines s lnum [] = Inr s"
| "iter_lines s lnum (line # rest) =
     (case iter_line s lnum line of
        Inl e \<Rightarrow> Inl e
      | Inr s' \<Rightarrow> iter_lines s' (Suc lnum) rest)"

text \<open>After the last line: a Term that is still open is yielded.\<close>

definition iter_finish :: "iter_state \<Rightarrow> iter_state" where
  "iter_finish s =
     (case rec_curr s of
        Some r \<Rightarrow> s\<lparr>yielded := yielded s @ [r]\<rparr>
      | None \<Rightarrow> s)"

text \<open>The whole iteration over a file given by its lines (each with its line
  terminator, as the file object hands them out): the records yielded, in order, and
  the reader as the loop leaves it.\<close>

definition OBOReader_iter :: "OBOReader \<Rightarrow> string list \<Rightarrow> error + (GOTerm list \<times> OBOReader)" where
  "OBOReader_iter r lines =
     (case iter_lines (iter_start r) 0 lines of
        Inl e \<Rightarrow> Inl e
      | Inr s \<Rightarrow> Inr (yielded (iter_finish s), rd (iter_finish s)))"

section \<open>GODag\<close>

text \<open>
  The graph is a dictionary from identifiers to Term objects.  \<open>terms\<close> is the
  dictionary itself, in insertion order (storing under a key that is present keeps the
  key's place); \<open>heap\<close> holds the objects.  Several keys may name one object.
\<close>

record GODag =
  terms :: "(string \<times> addr) list"
  heap :: "addr \<Rightarrow> GOTerm"
  dag_typedefs :: "(string \<times> TypeDef) list"
  dag_optional_attrs :: "string list"

text \<open>The records the reader yields become objects: the \<open>i\<close>-th record yielded is
  the object at address \<open>i\<close>.\<close>

definition heap_of :: "GOTerm list \<Rightarrow> addr \<Rightarrow> GOTerm" where
  "heap_of recs a = (if a < length recs then recs ! a else GOTerm_init)"

text \<open>The loop of \<^verbatim>\<open>load_obo_file\<close> over the records: \<open>a\<close> is the address of the
  next record.\<close>

fun load_recs :: "bool \<Rightarrow> (string \<times> addr) list \<Rightarrow> addr \<Rightarrow> GOTerm list \<Rightarrow> (string \<times> addr) list" where
  "load_recs load_obsolete d a [] = d"
| "load_recs load_obsolete d a (r # rs) =
     load_recs load_obsolete
       (if load_obsolete \<or> \<not> is_obsolete r
        then fold (\<lambda>alt d'. AList.update alt a d') (alt_ids r) (AList.update (goid r) a d)
        else d)
       (Suc a) rs"

text \<open>\<^verbatim>\<open>[self[x] for x in xs]\<close>\<close>

fun resolve :: "(string \<times> addr) list \<Rightarrow> string list \<Rightarrow> error + addr list" where
  "resolve d [] = Inr []"
| "resolve d (x # xs) =
     (case map_of d x of
        None \<Rightarrow> Inl (KeyError x)
      | Some a \<Rightarrow> (case resolve d xs of Inl e \<Rightarrow> Inl e | Inr as \<Rightarrow> Inr (a # as)))"

text \<open>A set of Term objects is kept as a list without repetitions; the order of the
  list stands for the order in which Python walks the set.\<close>

definition rel_get :: "(string \<times> addr list) list \<Rightarrow> string \<Rightarrow> addr list" where
  "rel_get d k = (case map_of d k of None \<Rightarrow> [] | Some ts \<Rightarrow> ts)"

fun resolve_items ::
  "(string \<times> addr) list \<Rightarrow> (string \<times> addr list) list \<Rightarrow> (string \<times> string list) list
     \<Rightarrow> error + (string \<times> addr list) list" where
  "resolve_items d rel [] = Inr rel"
| "resolve_items d rel ((typedef, ts) # rest) =
     (case resolve d ts of
        Inl e \<Rightarrow> Inl e
      | Inr as \<Rightarrow> resolve_items d (AList.update typedef (List.union as (rel_get rel typedef)) rel) rest)"

text \<open>The body of the first loop of \<^verbatim>\<open>populate_terms\<close> for the object \<open>a\<close>.\<close>

definition link_rec :: "GODag \<Rightarrow> addr \<Rightarrow> error + GODag" where
  "link_rec g a =
     (case resolve (terms g) (raw_parents (heap g a)) of
        Inl e \<Rightarrow> Inl e
      | Inr ps \<Rightarrow>
          let r = (heap g a)\<lparr>parents := ps\<rparr> in
          if hasattr r ''_relationship'' then
            (case map_of (attrs r) ''_relationship'' of
               Some (RawNested items) \<Rightarrow>
                 (case resolve_items (terms g) [] items of
                    Inl e \<Rightarrow> Inl e
                  | Inr rel \<Rightarrow>
                      Inr (g\<lparr>heap := (heap g)
                              (a := delattr (setattr r ''relationship'' (Rel rel)) ''_relationship'')\<rparr>))
             | _ \<Rightarrow> Inl (AttributeError ''items''))
          else Inr (g\<lparr>heap := (heap g)(a := r)\<rparr>))"

fun link_all :: "GODag \<Rightarrow> addr list \<Rightarrow> error + GODag" where
  "link_all g [] = Inr g"
| "link_all g (a # as) =
     (case link_rec g a of Inl e \<Rightarrow> Inl e | Inr g' \<Rightarrow> link_all g' as)"

text \<open>\<^verbatim>\<open>for parent in rec.parents: if rec not in parent.children:
  parent.children.append(rec)\<close>\<close>

fun add_children :: "(addr \<Rightarrow> GOTerm) \<Rightarrow> addr \<Rightarrow> addr list \<Rightarrow> (addr \<Rightarrow> GOTerm)" where
  "add_children h a [] = h"
| "add_children h a (p # ps) =
     add_children
       (if a \<notin> set (children (h p)) then h(p := (h p)\<lparr>children := children (h p) @ [a]\<rparr>) else h)
       a ps"

text \<open>\<^verbatim>\<open>term.relationship[invert_typedef].add(rec)\<close>, after creating
  \<^verbatim>\<open>term.relationship\<close> when the Term has none.\<close>

definition rel_add :: "GOTerm \<Rightarrow> string \<Rightarrow> addr \<Rightarrow> error + GOTerm" where
  "rel_add t invert_typedef a =
     (if \<not> hasattr t ''relationship'' then Inr (setattr t ''relationship'' (Rel [(invert_typedef, [a])]))
      else (case map_of (attrs t) ''relationship'' of
              Some (Rel d) \<Rightarrow>
                Inr (setattr t ''relationship'' (Rel (AList.update invert_typedef (List.insert a (rel_get d invert_typedef)) d)))
            | _ \<Rightarrow> Inl TypeError))"

fun invert_targets :: "(addr \<Rightarrow> GOTerm) \<Rightarrow> addr \<Rightarrow> string \<Rightarrow> addr list \<Rightarrow> error + (addr \<Rightarrow> GOTerm)" where
  "invert_targets h a invert_typedef [] = Inr h"
| "invert_targets h a invert_typedef (t # ts) =
     (case rel_add (h t) invert_typedef a of
        Inl e \<Rightarrow> Inl e
      | Inr t' \<Rightarrow> invert_targets (h(t := t')) a invert_typedef ts)"

definition rel_of :: "GOTerm \<Rightarrow> (string \<times> addr list) list" where
  "rel_of r = (case map_of (attrs r) ''relationship'' of Some (Rel d) \<Rightarrow> d | _ \<Rightarrow> [])"

text \<open>
  The loop over \<^verbatim>\<open>rec.relationship.items()\<close>.  The view is live: the set under a
  key is read when the loop reaches the key.  \<open>n\<close> is the number of keys when the loop
  started; the iterator raises when it is asked for the next item of a dictionary whose
  size has changed, which happens when \<open>rec\<close> is its own target and gains a key.
\<close>

fun invert_items ::
  "(string \<times> TypeDef) list \<Rightarrow> (addr \<Rightarrow> GOTerm) \<Rightarrow> addr \<Rightarrow> nat \<Rightarrow> string list
     \<Rightarrow> error + (addr \<Rightarrow> GOTerm)" where
  "invert_items tds h a n [] = Inr h"
| "invert_items tds h a n (typedef # rest) =
     (case map_of tds typedef of
        None \<Rightarrow> Inl (KeyError typedef)
      | Some td \<Rightarrow>
          (case (if inverse_of td \<noteq> []
                 then invert_targets h a (inverse_of td) (rel_get (rel_of (h a)) typedef)
                 else Inr h) of
             Inl e \<Rightarrow> Inl e
           | Inr h' \<Rightarrow>
               if length (rel_of (h' a)) \<noteq> n then Inl RuntimeError
               else invert_items tds h' a n rest))"

definition invert_rec :: "(string \<times> TypeDef) list \<Rightarrow> (addr \<Rightarrow> GOTerm) \<Rightarrow> addr \<Rightarrow> error + (addr \<Rightarrow> GOTerm)" where
  "invert_rec tds h a =
     (if hasattr (h a) ''relationship'' then
        (case map_of (attrs (h a)) ''relationship'' of
           Some (Rel d) \<Rightarrow> invert_items tds h a (length d) (map fst d)
         | _ \<Rightarrow> Inl (AttributeError ''items''))
      else Inr h)"

text \<open>
  Running a function that updates the store over a list of objects, in order, and
  collecting its results: the generator expressions under \<^verbatim>\<open>min\<close> and \<^verbatim>\<open>max\<close>.
\<close>

fun run_list ::
  "((addr \<Rightarrow> GOTerm) \<Rightarrow> addr \<Rightarrow> error + ((addr \<Rightarrow> GOTerm) \<times> 'b)) \<Rightarrow> (addr \<Rightarrow> GOTerm) \<Rightarrow> addr list
     \<Rightarrow> error + ((addr \<Rightarrow> GOTerm) \<times> 'b list)" where
  "run_list f h [] = Inr (h, [])"
| "run_list f h (p # ps) =
     (case f h p of
        Inl e \<Rightarrow> Inl e
      | Inr (h1, v) \<Rightarrow>
          (case run_list f h1 ps of
             Inl e \<Rightarrow> Inl e
           | Inr (h2, vs) \<Rightarrow> Inr (h2, v # vs)))"

text \<open>
  \<^verbatim>\<open>_init_level\<close> and \<^verbatim>\<open>_init_depth\<close>.  The first argument is the number of
  nested calls the interpreter still allows; a call beyond it raises
  \<^verbatim>\<open>RecursionError\<close>, which is what a cycle of parents ends in.
\<close>

primrec init_level :: "nat \<Rightarrow> (addr \<Rightarrow> GOTerm) \<Rightarrow> addr \<Rightarrow> error + ((addr \<Rightarrow> GOTerm) \<times> nat)" where
  "init_level 0 = (\<lambda>h a. Inl RecursionError)"
| "init_level (Suc n) = (\<lambda>h a.
     (case level (h a) of
        Some l \<Rightarrow> Inr (h, l)
      | None \<Rightarrow>
          if parents (h a) = [] then Inr (h(a := (h a)\<lparr>level := Some 0\<rparr>), 0)
          else (case run_list (init_level n) h (parents (h a)) of
                  Inl e \<Rightarrow> Inl e
                | Inr (h', ls) \<Rightarrow>
                    Inr (h'(a := (h' a)\<lparr>level := Some (Min (set ls) + 1)\<rparr>), Min (set ls) + 1))))"

primrec init_depth :: "nat \<Rightarrow> (addr \<Rightarrow> GOTerm) \<Rightarrow> addr \<Rightarrow> error + ((addr \<Rightarrow> GOTerm) \<times> nat)" where
  "init_depth 0 = (\<lambda>h a. Inl RecursionError)"
| "init_depth (Suc n) = (\<lambda>h a.
     (case depth (h a) of
        Some l \<Rightarrow> Inr (h, l)
      | None \<Rightarrow>
          if parents (h a) = [] then Inr (h(a := (h a)\<lparr>depth := Some 0\<rparr>), 0)
          else (case run_list (init_depth n) h (parents (h a)) of
                  Inl e \<Rightarrow> Inl e
                | Inr (h', ls) \<Rightarrow>
                    Inr (h'(a := (h' a)\<lparr>depth := Some (Max (set ls) + 1)\<rparr>), Max (set ls) + 1))))"

text \<open>The body of the second loop of \<^verbatim>\<open>populate_terms\<close> for the object \<open>a\<close>.\<close>

definition populate_rec ::
  "nat \<Rightarrow> (string \<times> TypeDef) list \<Rightarrow> (addr \<Rightarrow> GOTerm) \<Rightarrow> addr \<Rightarrow> error + (addr \<Rightarrow> GOTerm)" where
  "populate_rec lim tds h a =
     (case invert_rec tds (add_children h a (parents (h a))) a of
        Inl e \<Rightarrow> Inl e
      | Inr h2 \<Rightarrow>
          (case (if level (h2 a) = None
                 then (case init_level lim h2 a of Inl e \<Rightarrow> Inl e | Inr (h', _) \<Rightarrow> Inr h')
                 else Inr h2) of
             Inl e \<Rightarrow> Inl e
           | Inr h3 \<Rightarrow>
               if depth (h3 a) = None
               then (case init_depth lim h3 a of Inl e \<Rightarrow> Inl e | Inr (h', _) \<Rightarrow> Inr h')
               else Inr h3))"

fun populate_loop ::
  "nat \<Rightarrow> (string \<times> TypeDef) list \<Rightarrow> (addr \<Rightarrow> GOTerm) \<Rightarrow> addr list \<Rightarrow> error + (addr \<Rightarrow> GOTerm)" where
  "populate_loop lim tds h [] = Inr h"
| "populate_loop lim tds h (a # as) =
     (case populate_rec lim tds h a of
        Inl e \<Rightarrow> Inl e
      | Inr h' \<Rightarrow> populate_loop lim tds h' as)"

text \<open>\<^verbatim>\<open>self.values()\<close>: one entry for every key.\<close>

definition dag_values :: "GODag \<Rightarrow> addr list" where
  "dag_values g = map snd (terms g)"

definition populate_terms :: "nat \<Rightarrow> GODag \<Rightarrow> error + GODag" where
  "populate_terms lim g =
     (case link_all g (dag_values g) of
        Inl e \<Rightarrow> Inl e
      | Inr g1 \<Rightarrow>
          (case populate_loop lim (dag_typedefs g1) (heap g1) (dag_values g1) of
             Inl e \<Rightarrow> Inl e
           | Inr h \<Rightarrow> Inr (g1\<lparr>heap := h\<rparr>)))"

text \<open>\<^verbatim>\<open>load_obo_file\<close>, from the file to the assembled graph.  The version
  string that the method also builds and returns plays no part in the graph and is left
  out.\<close>

definition load_obo_file ::
  "nat \<Rightarrow> string \<Rightarrow> string list option \<Rightarrow> optional_arg \<Rightarrow> bool \<Rightarrow> error + GODag" where
  "load_obo_file lim file contents optional load_obsolete =
     (case OBOReader_init file contents optional of
        Inl e \<Rightarrow> Inl e
      | Inr reader \<Rightarrow>
          (case contents of
             None \<Rightarrow> Inl (CouldNotRead file)
           | Some lines \<Rightarrow>
               (case OBOReader_iter reader lines of
                  Inl e \<Rightarrow> Inl e
                | Inr (recs, reader') \<Rightarrow>
                    populate_terms lim
                      \<lparr> terms = load_recs load_obsolete [] 0 recs, heap = heap_of recs,
                        dag_typedefs = typedefs reader',
                        dag_optional_attrs = optional_attrs reader' \<rparr>)))"

text \<open>\<^verbatim>\<open>paths_to_top\<close>, with the same bound on nested calls.  An identifier
  that is not in the graph gives \<^verbatim>\<open>None\<close>.\<close>

primrec paths_to_top_recursive :: "nat \<Rightarrow> (addr \<Rightarrow> GOTerm) \<Rightarrow> addr \<Rightarrow> error + addr list list" where
  "paths_to_top_recursive 0 = (\<lambda>h a. Inl RecursionError)"
| "paths_to_top_recursive (Suc n) = (\<lambda>h a.
     if level (h a) = Some 0 then Inr [[a]]
     else (case run_list (\<lambda>h' p. (case paths_to_top_recursive n h' p of
                                      Inl e \<Rightarrow> Inl e | Inr tps \<Rightarrow> Inr (h', tps))) h (parents (h a)) of
             Inl e \<Rightarrow> Inl e
           | Inr (_, tpss) \<Rightarrow> Inr (map (\<lambda>top_path. top_path @ [a]) (concat tpss))))"

definition paths_to_top :: "nat \<Rightarrow> GODag \<Rightarrow> string \<Rightarrow> error + addr list list option" where
  "paths_to_top lim g term =
     (case map_of (terms g) term of
        None \<Rightarrow> Inr None
      | Some a \<Rightarrow>
          (case paths_to_top_recursive lim (heap g) a of
             Inl e \<Rightarrow> Inl e
           | Inr paths \<Rightarrow> Inr (Some paths)))"

section \<open>Example inputs\<close>

text \<open>A line as the file object hands it out, with its terminator.\<close>

definition ln :: "string \<Rightarrow> string" where
  "ln s = s @ [CHR 0x0A]"

definition reader0 :: "string list \<Rightarrow> OBOReader" where
  "reader0 oa = \<lparr> obo_file = ''go.obo'', optional_attrs = oa, format_version = None,
                  data_version = None, typedefs = [] \<rparr>"

definition example_has_part :: TypeDef where
  "example_has_part = TypeDef_init\<lparr>td_id := ''has_part''\<rparr>"

text \<open>An error that names the file and the line: the exception \<^verbatim>\<open>_die\<close> raises.\<close>

definition error_located :: "string \<Rightarrow> nat \<Rightarrow> error \<Rightarrow> bool" where
  "error_located file lnum e = (case e of Fatal f l _ \<Rightarrow> f = file \<and> l = lnum | _ \<Rightarrow> False)"

section \<open>Invariants and auxiliary notions\<close>

text \<open>\<open>only_level h h'\<close>: the stores differ in level fields at most, and a level
  that is set in \<open>h\<close> is the same in \<open>h'\<close>.\<close>

definition only_level :: "(addr \<Rightarrow> GOTerm) \<Rightarrow> (addr \<Rightarrow> GOTerm) \<Rightarrow> bool" where
  "only_level h h' =
     ((\<forall>b. (h' b)\<lparr>level := None\<rparr> = (h b)\<lparr>level := None\<rparr>) \<and>
      (\<forall>b x. level (h b) = Some x \<longrightarrow> level (h' b) = Some x))"

text \<open>\<open>lvl_ok h\<close>: every level that is set obeys the recurrence of
  \<^verbatim>\<open>_init_level\<close>: the parents have their levels, and the level is 0 without parents
  and one more than the least level of the parents otherwise.\<close>

definition lvl_ok :: "(addr \<Rightarrow> GOTerm) \<Rightarrow> bool" where
  "lvl_ok h =
     (\<forall>a l. level (h a) = Some l \<longrightarrow>
        (\<forall>p\<in>set (parents (h a)). level (h p) \<noteq> None) \<and>
        l = (if parents (h a) = [] then 0
             else Suc (Min ((\<lambda>p. the (level (h p))) ` set (parents (h a))))))"

text \<open>What one call does for a store whose levels obey the recurrence.\<close>

definition level_step :: "((addr \<Rightarrow> GOTerm) \<Rightarrow> addr \<Rightarrow> error + ((addr \<Rightarrow> GOTerm) \<times> nat)) \<Rightarrow> bool" where
  "level_step f =
     (\<forall>h p h' v. lvl_ok h \<longrightarrow> f h p = Inr (h', v) \<longrightarrow>
        only_level h h' \<and> level (h' p) = Some v \<and> lvl_ok h')"

text \<open>The same notions for the depth, with the greatest depth of the parents.\<close>

definition only_depth :: "(addr \<Rightarrow> GOTerm) \<Rightarrow> (addr \<Rightarrow> GOTerm) \<Rightarrow> bool" where
  "only_depth h h' =
     ((\<forall>b. (h' b)\<lparr>depth := None\<rparr> = (h b)\<lparr>depth := None\<rparr>) \<and>
      (\<forall>b x. depth (h b) = Some x \<longrightarrow> depth (h' b) = Some x))"

definition dpt_ok :: "(addr \<Rightarrow> GOTerm) \<Rightarrow> bool" where
  "dpt_ok h =
     (\<forall>a l. depth (h a) = Some l \<longrightarrow>
        (\<forall>p\<in>set (parents (h a)). depth (h p) \<noteq> None) \<and>
        l = (if parents (h a) = [] then 0
             else Suc (Max ((\<lambda>p. the (depth (h p))) ` set (parents (h a))))))"

definition depth_step :: "((addr \<Rightarrow> GOTerm) \<Rightarrow> addr \<Rightarrow> error + ((addr \<Rightarrow> GOTerm) \<times> nat)) \<Rightarrow> bool" where
  "depth_step f =
     (\<forall>h p h' v. dpt_ok h \<longrightarrow> f h p = Inr (h', v) \<longrightarrow>
        only_depth h h' \<and> depth (h' p) = Some v \<and> dpt_ok h')"

text \<open>\<open>keeps f h h'\<close>: the field \<open>f\<close> of every object is the same in both stores.\<close>

definition keeps :: "(GOTerm \<Rightarrow> 'x) \<Rightarrow> (addr \<Rightarrow> GOTerm) \<Rightarrow> (addr \<Rightarrow> GOTerm) \<Rightarrow> bool" where
  "keeps f h h' = (\<forall>b. f (h' b) = f (h b))"

text \<open>What grows and what stays while the second loop runs.\<close>

definition metrics_grow :: "(addr \<Rightarrow> GOTerm) \<Rightarrow> (addr \<Rightarrow> GOTerm) \<Rightarrow> bool" where
  "metrics_grow h h' =
     ((\<forall>b x. level (h b) = Some x \<longrightarrow> level (h' b) = Some x) \<and>
      (\<forall>b x. depth (h b) = Some x \<longrightarrow> depth (h' b) = Some x) \<and>
      keeps parents h h' \<and> keeps raw_parents h h')"

text \<open>A record as \<^verbatim>\<open>GOTerm()\<close> creates it, as far as the assembly is concerned:
  no links and no metrics.  The reader only yields such records.\<close>

definition fresh :: "GOTerm \<Rightarrow> bool" where
  "fresh r = (parents r = [] \<and> children r = [] \<and> level r = None \<and> depth r = None)"

definition iter_fresh :: "iter_state \<Rightarrow> bool" where
  "iter_fresh s = ((\<forall>r\<in>set (yielded s). fresh r) \<and> (\<forall>r. rec_curr s = Some r \<longrightarrow> fresh r))"

text \<open>The stores differ in level fields (in depth fields) at most.\<close>

definition level_frame :: "(addr \<Rightarrow> GOTerm) \<Rightarrow> (addr \<Rightarrow> GOTerm) \<Rightarrow> bool" where
  "level_frame h h' = (\<forall>b. (h' b)\<lparr>level := None\<rparr> = (h b)\<lparr>level := None\<rparr>)"

definition depth_frame :: "(addr \<Rightarrow> GOTerm) \<Rightarrow> (addr \<Rightarrow> GOTerm) \<Rightarrow> bool" where
  "depth_frame h h' = (\<forall>b. (h' b)\<lparr>depth := None\<rparr> = (h b)\<lparr>depth := None\<rparr>)"

text \<open>Children are only ever added, and lists without repetitions stay so.\<close>

definition children_grow :: "(addr \<Rightarrow> GOTerm) \<Rightarrow> (addr \<Rightarrow> GOTerm) \<Rightarrow> bool" where
  "children_grow h h' =
     ((\<forall>b. set (children (h b)) \<subseteq> set (children (h' b))) \<and>
      ((\<forall>b. distinct (children (h b))) \<longrightarrow> (\<forall>b. distinct (children (h' b)))))"

text \<open>The assembly never touches the identifiers of an object.\<close>

definition same_ids :: "(addr \<Rightarrow> GOTerm) \<Rightarrow> (addr \<Rightarrow> GOTerm) \<Rightarrow> bool" where
  "same_ids h h' = (\<forall>b. goid (h' b) = goid (h b) \<and> alt_ids (h' b) = alt_ids (h b))"

text \<open>The keys under which \<^verbatim>\<open>load_obo_file\<close> stores a record, and whether it
  stores the record at all.\<close>

definition keys_of :: "GOTerm \<Rightarrow> string list" where
  "keys_of r = goid r # alt_ids r"

definition retained :: "bool \<Rightarrow> GOTerm \<Rightarrow> bool" where
  "retained load_obsolete r = (load_obsolete \<or> \<not> is_obsolete r)"

text \<open>A chain lists Terms so that each one is a parent of the next.  A root path of
  \<open>a\<close> is a chain that starts at a Term of level 0 and ends at \<open>a\<close>.\<close>

fun is_chain :: "(addr \<Rightarrow> GOTerm) \<Rightarrow> addr list \<Rightarrow> bool" where
  "is_chain h [] = True"
| "is_chain h [x] = True"
| "is_chain h (x # y # ys) = (x \<in> set (parents (h y)) \<and> is_chain h (y # ys))"

definition root_path :: "(addr \<Rightarrow> GOTerm) \<Rightarrow> addr \<Rightarrow> addr list \<Rightarrow> bool" where
  "root_path h a xs = (xs \<noteq> [] \<and> last xs = a \<and> level (h (hd xs)) = Some 0 \<and> is_chain h xs)"

text \<open>\<open>rel_mem h b k x\<close>: in the store \<open>h\<close>, the relationship map of the Term \<open>b\<close>
  holds the Term \<open>x\<close> under the typedef \<open>k\<close>.\<close>

definition rel_mem :: "(addr \<Rightarrow> GOTerm) \<Rightarrow> addr \<Rightarrow> string \<Rightarrow> addr \<Rightarrow> bool" where
  "rel_mem h b k x = (x \<in> set (rel_get (rel_of (h b)) k))"

definition rel_grow :: "(addr \<Rightarrow> GOTerm) \<Rightarrow> (addr \<Rightarrow> GOTerm) \<Rightarrow> bool" where
  "rel_grow h h' = (\<forall>b k x. rel_mem h b k x \<longrightarrow> rel_mem h' b k x)"

text \<open>Where the relationship of \<open>x\<close> to \<open>y\<close> under \<open>A\<close> is kept while the first loop
  runs: in the raw map before \<open>x\<close> is visited, in the map of Term objects after.\<close>

definition rel_pending ::
  "(addr \<Rightarrow> GOTerm) \<Rightarrow> addr \<Rightarrow> (string \<times> string list) list \<Rightarrow> string \<Rightarrow> addr \<Rightarrow> bool" where
  "rel_pending h x its A y =
     (map_of (attrs (h x)) ''_relationship'' = Some (RawNested its) \<or>
      (map_of (attrs (h x)) ''_relationship'' = None \<and> rel_mem h x A y))"

definition rel_linked :: "(addr \<Rightarrow> GOTerm) \<Rightarrow> addr \<Rightarrow> string \<Rightarrow> addr \<Rightarrow> bool" where
  "rel_linked h x A y = (map_of (attrs (h x)) ''_relationship'' = None \<and> rel_mem h x A y)"

text \<open>\<open>within_level h n a\<close>: \<open>n\<close> nested calls are enough to give \<open>a\<close> its level in the
  store \<open>h\<close>, because every chain of parents from \<open>a\<close> reaches, in fewer than \<open>n\<close>
  steps, a Term that has its level or has no parents.\<close>

fun within_level :: "(addr \<Rightarrow> GOTerm) \<Rightarrow> nat \<Rightarrow> addr \<Rightarrow> bool" where
  "within_level h 0 a = False"
| "within_level h (Suc n) a =
     (level (h a) \<noteq> None \<or> (\<forall>p\<in>set (parents (h a)). within_level h n p))"

text \<open>Only level fields change, and no level is taken away.\<close>

definition level_ext :: "(addr \<Rightarrow> GOTerm) \<Rightarrow> (addr \<Rightarrow> GOTerm) \<Rightarrow> bool" where
  "level_ext h h' = (level_frame h h' \<and> (\<forall>b. level (h b) \<noteq> None \<longrightarrow> level (h' b) \<noteq> None))"

text \<open>The same for the depth.\<close>

fun within_depth :: "(addr \<Rightarrow> GOTerm) \<Rightarrow> nat \<Rightarrow> addr \<Rightarrow> bool" where
  "within_depth h 0 a = False"
| "within_depth h (Suc n) a =
     (depth (h a) \<noteq> None \<or> (\<forall>p\<in>set (parents (h a)). within_depth h n p))"

definition depth_ext :: "(addr \<Rightarrow> GOTerm) \<Rightarrow> (addr \<Rightarrow> GOTerm) \<Rightarrow> bool" where
  "depth_ext h h' = (depth_frame h h' \<and> (\<forall>b. depth (h b) \<noteq> None \<longrightarrow> depth (h' b) \<noteq> None))"

text \<open>A small ontology: a root, a diamond below it, an isolated Term, an alternate
  identifier and one relationship with an inverse.\<close>

definition example_obo :: "string list" where
  "example_obo =
     [ln ''format-version: 1.2'', ln [],
      ln ''[Term]'', ln ''id: GO:1'', ln ''name: root'', ln [],
      ln ''[Term]'', ln ''id: GO:2'', ln ''alt_id: GO:22'', ln ''is_a: GO:1 ! root'', ln [],
      ln ''[Term]'', ln ''id: GO:3'', ln ''is_a: GO:1'', ln ''relationship: part_of GO:2 ! two'', ln [],
      ln ''[Term]'', ln ''id: GO:4'', ln ''is_a: GO:2'', ln ''is_a: GO:3'', ln [],
      ln ''[Term]'', ln ''id: GO:5'', ln [],
      ln ''[Typedef]'', ln ''id: part_of'', ln ''inverse_of: has_part'', ln [],
      ln ''[Typedef]'', ln ''id: has_part'', ln ''inverse_of: part_of'', ln []]"

definition example_load :: "error + GODag" where
  "example_load = load_obo_file 100 ''go.obo'' (Some example_obo) (ArgStr ''relationship'') False"

definition example_dag :: GODag where
  "example_dag = projr example_load"

text \<open>A Term that names its parent twice.\<close>

definition example_twice_obo :: "string list" where
  "example_twice_obo =
     [ln ''[Term]'', ln ''id: GO:1'', ln [],
      ln ''[Term]'', ln ''id: GO:2'', ln ''is_a: GO:1'', ln ''is_a: GO:1'', ln []]"

definition example_twice_load :: "error + GODag" where
  "example_twice_load = load_obo_file 100 ''go.obo'' (Some example_twice_obo) ArgNone False"

definition example_twice_dag :: GODag where
  "example_twice_dag = projr example_twice_load"

definition example_dag_again :: GODag where
  "example_dag_again = projr (populate_terms 100 example_dag)"

definition example_reader :: OBOReader where
  "example_reader = projr (OBOReader_init ''go.obo'' (Some example_obo) (ArgStr ''relationship''))"

definition example_parsed :: "GOTerm list \<times> OBOReader" where
  "example_parsed = projr (OBOReader_iter example_reader example_obo)"

text \<open>Two records that share an identifier: the alternate identifier of the first is
  the primary identifier of the second.\<close>

definition example_clash_obo :: "string list" where
  "example_clash_obo =
     [ln ''[Term]'', ln ''id: GO:1'', ln ''alt_id: GO:9'', ln [],
      ln ''[Term]'', ln ''id: GO:9'', ln []]"

definition example_clash_dag :: GODag where
  "example_clash_dag = projr (load_obo_file 100 ''go.obo'' (Some example_clash_obo) ArgNone False)"

text \<open>The example graph as \<^verbatim>\<open>load_obo_file\<close> hands it to \<^verbatim>\<open>populate_terms\<close>.\<close>

definition example_unassembled :: GODag where
  "example_unassembled =
     \<lparr> terms = load_recs False [] 0 (fst example_parsed), heap = heap_of (fst example_parsed),
       dag_typedefs = typedefs (snd example_parsed),
       dag_optional_attrs = optional_attrs (snd example_parsed) \<rparr>"

definition example_part_of :: TypeDef where
  "example_part_of = TypeDef_init\<lparr>td_id := ''part_of'', inverse_of := ''has_part''\<rparr>"

section \<open>The reader: facts about the loop\<close>

lemma init_obo_version_keeps:
  "typedefs (init_obo_version r l) = typedefs r"
  "obo_file (init_obo_version r l) = obo_file r"
  "optional_attrs (init_obo_version r l) = optional_attrs r"
  by (simp_all add: init_obo_version_def Let_def)

lemma iter_lines_append:
  "iter_lines s n (xs @ ys) =
     (case iter_lines s n xs of Inl e \<Rightarrow> Inl e | Inr s1 \<Rightarrow> iter_lines s1 (n + length xs) ys)"
  by (induction xs arbitrary: s n) (auto split: sum.splits)

lemma iter_line_reader_const:
  assumes "iter_line s n l = Inr s'"
  shows "obo_file (rd s') = obo_file (rd s) \<and> optional_attrs (rd s') = optional_attrs (rd s)"
  using assms
  by (auto simp: iter_line_def Let_def init_obo_version_keeps
           split: if_splits sum.splits option.splits)

lemma iter_lines_reader_const:
  "iter_lines s n ls = Inr s' \<Longrightarrow>
     obo_file (rd s') = obo_file (rd s) \<and> optional_attrs (rd s') = optional_attrs (rd s)"
proof (induction ls arbitrary: s n)
  case Nil
  then show ?case by simp
next
  case (Cons l ls)
  then obtain s1 where s1: "iter_line s n l = Inr s1" and r: "iter_lines s1 (Suc n) ls = Inr s'"
    by (auto split: sum.splits)
  from iter_line_reader_const[OF s1] Cons.IH[OF r] show ?case by simp
qed

lemma match_from_colon:
  "match_from line k = Some (f, v) \<Longrightarrow> CHR '':'' \<in> set line"
proof (induction k)
  case 0
  then show ?case by simp
next
  case (Suc k)
  show ?case
  proof (cases "match_at line (Suc k)")
    case None
    with Suc show ?thesis by simp
  next
    case (Some m)
    then have "Suc k < length (takeWhile (\<lambda>c. \<not> is_space c) line)" and c: "line ! Suc k = CHR '':''"
      by (auto simp: match_at_def Let_def split: if_splits)
    then have "Suc k < length line"
      using length_takeWhile_le[of "\<lambda>c. \<not> is_space c" line] by linarith
    with c show ?thesis by (metis nth_mem)
  qed
qed

lemma re_match_field_colon:
  "re_match_field line = Some (f, v) \<Longrightarrow> CHR '':'' \<in> set line"
  unfolding re_match_field_def by (rule match_from_colon)

lemma add_to_ref_reinit:
  assumes "re_match_field line = Some (f, v)"
    and "f = ''id'' \<and> goid r \<noteq> [] \<or> f = ''name'' \<and> name r \<noteq> [] \<or> f = ''namespace'' \<and> namespace r \<noteq> []"
  shows "add_to_ref rdr r line lnum = Inl (Fatal (obo_file rdr) lnum ''FIELD IS ALREADY INITIALIZED'')"
  using assms by (auto simp: add_to_ref_def chk_none_def die_def)

lemma add_to_typedef_reinit:
  assumes "re_match_field line = Some (f, v)"
    and "f = ''id'' \<and> td_id t \<noteq> [] \<or> f = ''name'' \<and> td_name t \<noteq> [] \<or> f = ''inverse_of'' \<and> inverse_of t \<noteq> []"
  shows "add_to_typedef rdr t line lnum = Inl (Fatal (obo_file rdr) lnum ''FIELD IS ALREADY INITIALIZED'')"
  using assms by (auto simp: add_to_typedef_def chk_none_def die_def Let_def)

lemma add_to_ref_scalar_again:
  assumes "re_match_field line = Some (f, v)"
    and "f \<in> set (optional_attrs rdr)" and "f \<notin> set attrs_req"
    and "n = (if f = ''def'' then ''defn'' else f)" and "n \<in> set attrs_scalar"
    and "map_of (attrs r) n = Some (Scalar old)"
  shows "add_to_ref rdr r line lnum = Inl (AttrAlreadySet n old)"
  using assms by (auto simp: add_to_ref_def update_rec_def hasattr_def attrs_req_def Let_def)

lemma iter_line_reinit_term:
  assumes "lower (take 6 l) \<noteq> ''[term]''" and "lower (take 9 l) \<noteq> ''[typedef]''"
    and m: "re_match_field (rstrip l) = Some (f, v)"
    and "rec_curr s = Some r"
    and c: "f = ''id'' \<and> goid r \<noteq> [] \<or> f = ''name'' \<and> name r \<noteq> [] \<or> f = ''namespace'' \<and> namespace r \<noteq> []"
  shows "iter_line s n l = Inl (Fatal (obo_file (rd s)) n ''FIELD IS ALREADY INITIALIZED'')"
  using assms(1,2,4) re_match_field_colon[OF m]
  by (simp add: iter_line_def Let_def add_to_ref_reinit[OF m c] init_obo_version_keeps)

lemma iter_line_reinit_typedef:
  assumes "lower (take 6 l) \<noteq> ''[term]''" and "lower (take 9 l) \<noteq> ''[typedef]''"
    and m: "re_match_field (rstrip l) = Some (f, v)"
    and "rec_curr s = None" and "typedef_curr s = Some t"
    and c: "f = ''id'' \<and> td_id t \<noteq> [] \<or> f = ''name'' \<and> td_name t \<noteq> [] \<or> f = ''inverse_of'' \<and> inverse_of t \<noteq> []"
  shows "iter_line s n l = Inl (Fatal (obo_file (rd s)) n ''FIELD IS ALREADY INITIALIZED'')"
  using assms(1,2,4,5) re_match_field_colon[OF m]
  by (simp add: iter_line_def Let_def add_to_typedef_reinit[OF m c] init_obo_version_keeps)

lemma iter_line_scalar_again:
  assumes "lower (take 6 l) \<noteq> ''[term]''" and "lower (take 9 l) \<noteq> ''[typedef]''"
    and m: "re_match_field (rstrip l) = Some (f, v)"
    and "rec_curr s = Some r"
    and o: "f \<in> set (optional_attrs (rd s))" and q: "f \<notin> set attrs_req"
    and n: "a = (if f = ''def'' then ''defn'' else f)" and sc: "a \<in> set attrs_scalar"
    and old: "map_of (attrs r) a = Some (Scalar old)"
  shows "iter_line s n l = Inl (AttrAlreadySet a old)"
  using assms(1,2,4) re_match_field_colon[OF m] o
  by (simp add: iter_line_def Let_def add_to_ref_scalar_again[OF m _ q n sc old] init_obo_version_keeps)

lemma OBOReader_iter_abort:
  assumes "iter_lines (iter_start rdr) 0 pre = Inr s" and "iter_line s (length pre) l = Inl e"
  shows "OBOReader_iter rdr (pre @ l # post) = Inl e"
  using assms by (simp add: OBOReader_iter_def iter_lines_append)

subsection \<open>Block headers\<close>

lemma typedef_header_not_term:
  assumes "lower (take 9 hdr) = ''[typedef]''"
  shows "lower (take 6 hdr) \<noteq> ''[term]''"
proof -
  have "lower (take 6 hdr) = take 6 (lower (take 9 hdr))"
    by (simp add: lower_def take_map)
  with assms show ?thesis by simp
qed

lemma term_header_after_open_term:
  assumes "rec_curr s = Some r" and "lower (take 6 l) = ''[term]''"
  shows "iter_line s n l =
           Inl (Fatal (obo_file (rd s)) n ''PREVIOUS Term WAS NOT TERMINATED AS EXPECTED'')"
  using assms
  by (simp add: iter_line_def Let_def init_goterm_ref_def die_def init_obo_version_keeps)

lemma typedef_header_after_open_term:
  assumes "rec_curr s = Some r" and "lower (take 6 l) \<noteq> ''[term]''"
    and "lower (take 9 l) = ''[typedef]''"
  shows "iter_line s n l =
           Inl (Fatal (obo_file (rd s)) n ''PREVIOUS Typedef WAS NOT TERMINATED AS EXPECTED'')"
  using assms
  by (simp add: iter_line_def Let_def init_typedef_def die_def init_obo_version_keeps)

lemma typedef_header_after_open_typedef:
  assumes "rec_curr s = None" and "lower (take 9 l) = ''[typedef]''"
  shows "\<exists>s'. iter_line s n l = Inr s' \<and> typedef_curr s' = Some TypeDef_init"
  using assms typedef_header_not_term[OF assms(2)]
  by (simp add: iter_line_def Let_def init_typedef_def)

text \<open>
  C6.  A header that opens a record while one of the same kind is open is meant to
  abort.  For \<^verbatim>\<open>[Term]\<close> it does, with the index of the second header (second
  conjunct).  For \<^verbatim>\<open>[Typedef]\<close> the loop hands the current Term, not the current
  Typedef, to \<^verbatim>\<open>_init_typedef\<close>: a second \<^verbatim>\<open>[Typedef]\<close> header inside an open
  Typedef block raises nothing and the first Typedef is lost (first conjunct).
\<close>

theorem typedef_header_in_open_typedef_accepted:
  "OBOReader_iter (reader0 [])
      [ln ''[Typedef]'', ln ''id: part_of'', ln ''[Typedef]'', ln ''id: has_part'', ln []]
     = Inr ([], (reader0 [])\<lparr>typedefs := [(''has_part'', example_has_part)]\<rparr>)
   \<and> OBOReader_iter (reader0 [])
      [ln ''[Term]'', ln ''id: GO:0000001'', ln ''[Term]'', ln ''id: GO:0000002'', ln []]
     = Inl (Fatal ''go.obo'' 2 ''PREVIOUS Term WAS NOT TERMINATED AS EXPECTED'')"
  by code_simp

subsection \<open>Set-once fields\<close>

text \<open>
  C9, as the code has it.  The file is \<open>pre @ l # post\<close>; the loop reads \<open>pre\<close>
  without error and \<open>l\<close> is a field line \<^verbatim>\<open>f: v\<close>.  If \<open>l\<close> sets again the id, name or
  namespace of the open Term, or the id, name or inverse_of of the open Typedef, the
  load aborts with the error of \<^verbatim>\<open>_die\<close>, which carries the path of the file and
  the index of line \<open>l\<close>.  If \<open>l\<close> sets again an enabled optional scalar attribute of the
  open Term, the load aborts with the error of \<^verbatim>\<open>update_rec\<close>, which carries the
  name of the attribute and its current value.
\<close>

theorem set_once_reinit_errors:
  assumes pre: "iter_lines (iter_start rdr) 0 pre = Inr s"
    and h1: "lower (take 6 l) \<noteq> ''[term]''" and h2: "lower (take 9 l) \<noteq> ''[typedef]''"
    and m: "re_match_field (rstrip l) = Some (f, v)"
  shows "(\<forall>r. rec_curr s = Some r \<and>
            (f = ''id'' \<and> goid r \<noteq> [] \<or> f = ''name'' \<and> name r \<noteq> [] \<or>
             f = ''namespace'' \<and> namespace r \<noteq> []) \<longrightarrow>
            OBOReader_iter rdr (pre @ l # post) =
              Inl (Fatal (obo_file rdr) (length pre) ''FIELD IS ALREADY INITIALIZED''))
       \<and> (\<forall>t. rec_curr s = None \<and> typedef_curr s = Some t \<and>
            (f = ''id'' \<and> td_id t \<noteq> [] \<or> f = ''name'' \<and> td_name t \<noteq> [] \<or>
             f = ''inverse_of'' \<and> inverse_of t \<noteq> []) \<longrightarrow>
            OBOReader_iter rdr (pre @ l # post) =
              Inl (Fatal (obo_file rdr) (length pre) ''FIELD IS ALREADY INITIALIZED''))
       \<and> (\<forall>r a old. rec_curr s = Some r \<and> f \<in> set (optional_attrs rdr) \<and> f \<notin> set attrs_req \<and>
            a = (if f = ''def'' then ''defn'' else f) \<and> a \<in> set attrs_scalar \<and>
            map_of (attrs r) a = Some (Scalar old) \<longrightarrow>
            OBOReader_iter rdr (pre @ l # post) = Inl (AttrAlreadySet a old))"
proof -
  have k: "obo_file (rd s) = obo_file rdr" "optional_attrs (rd s) = optional_attrs rdr"
    using iter_lines_reader_const[OF pre] by (simp_all add: iter_start_def)
  show ?thesis
  proof (intro conjI allI impI)
    fix r
    assume a: "rec_curr s = Some r \<and>
            (f = ''id'' \<and> goid r \<noteq> [] \<or> f = ''name'' \<and> name r \<noteq> [] \<or>
             f = ''namespace'' \<and> namespace r \<noteq> [])"
    from iter_line_reinit_term[OF h1 h2 m, of s r "length pre"] a k
    have "iter_line s (length pre) l = Inl (Fatal (obo_file rdr) (length pre) ''FIELD IS ALREADY INITIALIZED'')"
      by simp
    from OBOReader_iter_abort[OF pre this]
    show "OBOReader_iter rdr (pre @ l # post) =
              Inl (Fatal (obo_file rdr) (length pre) ''FIELD IS ALREADY INITIALIZED'')" .
  next
    fix t
    assume a: "rec_curr s = None \<and> typedef_curr s = Some t \<and>
            (f = ''id'' \<and> td_id t \<noteq> [] \<or> f = ''name'' \<and> td_name t \<noteq> [] \<or>
             f = ''inverse_of'' \<and> inverse_of t \<noteq> [])"
    from iter_line_reinit_typedef[OF h1 h2 m, of s t "length pre"] a k
    have "iter_line s (length pre) l = Inl (Fatal (obo_file rdr) (length pre) ''FIELD IS ALREADY INITIALIZED'')"
      by simp
    from OBOReader_iter_abort[OF pre this]
    show "OBOReader_iter rdr (pre @ l # post) =
              Inl (Fatal (obo_file rdr) (length pre) ''FIELD IS ALREADY INITIALIZED'')" .
  next
    fix r a old
    assume a: "rec_curr s = Some r \<and> f \<in> set (optional_attrs rdr) \<and> f \<notin> set attrs_req \<and>
            a = (if f = ''def'' then ''defn'' else f) \<and> a \<in> set attrs_scalar \<and>
            map_of (attrs r) a = Some (Scalar old)"
    then have r: "rec_curr s = Some r" and o: "f \<in> set (optional_attrs (rd s))"
      and q: "f \<notin> set attrs_req" and n: "a = (if f = ''def'' then ''defn'' else f)"
      and sc: "a \<in> set attrs_scalar" and old: "map_of (attrs r) a = Some (Scalar old)"
      using k by (auto split: if_splits)
    have "iter_line s (length pre) l = Inl (AttrAlreadySet a old)"
      by (rule iter_line_scalar_again[OF h1 h2 m r o q n sc old])
    from OBOReader_iter_abort[OF pre this]
    show "OBOReader_iter rdr (pre @ l # post) = Inl (AttrAlreadySet a old)" .
  qed
qed

theorem set_once_reinit_errors_witness:
  "OBOReader_iter (reader0 [''comment'']) [ln ''[Term]'', ln ''id: GO:0000001'', ln ''id: GO:0000002'']
     = Inl (Fatal ''go.obo'' 2 ''FIELD IS ALREADY INITIALIZED'')
   \<and> OBOReader_iter (reader0 [''comment'']) [ln ''[Typedef]'', ln ''id: part_of'', ln ''id: has_part'']
     = Inl (Fatal ''go.obo'' 2 ''FIELD IS ALREADY INITIALIZED'')
   \<and> OBOReader_iter (reader0 [''comment'']) [ln ''[Term]'', ln ''comment: first'', ln ''comment: again'']
     = Inl (AttrAlreadySet ''comment'' ''first'')"
proof -
  let ?r = "reader0 [''comment'']"
  have p1: "iter_lines (iter_start ?r) 0 [ln ''[Term]'', ln ''id: GO:0000001'']
              = Inr \<lparr>rd = ?r, rec_curr = Some (GOTerm_init\<lparr>goid := ''GO:0000001''\<rparr>),
                      typedef_curr = None, yielded = []\<rparr>"
    by code_simp
  have p2: "iter_lines (iter_start ?r) 0 [ln ''[Typedef]'', ln ''id: part_of'']
              = Inr \<lparr>rd = ?r, rec_curr = None,
                      typedef_curr = Some (TypeDef_init\<lparr>td_id := ''part_of''\<rparr>), yielded = []\<rparr>"
    by code_simp
  have p3: "iter_lines (iter_start ?r) 0 [ln ''[Term]'', ln ''comment: first'']
              = Inr \<lparr>rd = ?r, rec_curr = Some (GOTerm_init\<lparr>attrs := [(''comment'', Scalar ''first'')]\<rparr>),
                      typedef_curr = None, yielded = []\<rparr>"
    by code_simp
  have h1: "lower (take 6 (ln ''id: GO:0000002'')) \<noteq> ''[term]''"
    and h2: "lower (take 9 (ln ''id: GO:0000002'')) \<noteq> ''[typedef]''"
    and m1: "re_match_field (rstrip (ln ''id: GO:0000002'')) = Some (''id'', ''GO:0000002'')"
    by code_simp+
  have h3: "lower (take 6 (ln ''id: has_part'')) \<noteq> ''[term]''"
    and h4: "lower (take 9 (ln ''id: has_part'')) \<noteq> ''[typedef]''"
    and m2: "re_match_field (rstrip (ln ''id: has_part'')) = Some (''id'', ''has_part'')"
    by code_simp+
  have h5: "lower (take 6 (ln ''comment: again'')) \<noteq> ''[term]''"
    and h6: "lower (take 9 (ln ''comment: again'')) \<noteq> ''[typedef]''"
    and m3: "re_match_field (rstrip (ln ''comment: again'')) = Some (''comment'', ''again'')"
    by code_simp+
  have s: "''comment'' \<in> set attrs_scalar" "''comment'' \<notin> set attrs_req"
    by (simp_all add: attrs_scalar_def attrs_req_def)
  show ?thesis
    using set_once_reinit_errors[OF p1 h1 h2 m1, of "[]"] set_once_reinit_errors[OF p2 h3 h4 m2, of "[]"]
      set_once_reinit_errors[OF p3 h5 h6 m3, of "[]"] s
    by (simp add: GOTerm_init_def TypeDef_init_def reader0_def)
qed

text \<open>
  C9, as stated, fails: with \<^verbatim>\<open>comment\<close> enabled, a second \<^verbatim>\<open>comment:\<close> line in a
  Term aborts the load with an error that names neither the file nor the line.
\<close>

theorem optional_scalar_reinit_not_located:
  "OBOReader_iter (reader0 [''comment''])
      [ln ''[Term]'', ln ''id: GO:0000001'', ln ''comment: first'', ln ''comment: again'', ln []]
     = Inl (AttrAlreadySet ''comment'' ''first'')
   \<and> \<not> error_located ''go.obo'' 3 (AttrAlreadySet ''comment'' ''first'')"
  by code_simp

subsection \<open>End of input\<close>

lemma iter_line_no_term_open:
  assumes "rec_curr s = None" and "lower (take 6 l) \<noteq> ''[term]''" and "rstrip l \<noteq> []"
    and "iter_line s n l = Inr s'"
  shows "rec_curr s' = None \<and> yielded s' = yielded s \<and> typedefs (rd s') = typedefs (rd s)
         \<and> (typedef_curr s \<noteq> None \<longrightarrow> typedef_curr s' \<noteq> None)"
  using assms
  by (auto simp: iter_line_def Let_def init_obo_version_keeps init_typedef_def
           split: if_splits sum.splits option.splits)

lemma iter_lines_no_term_open:
  assumes "rec_curr s = None" and "\<forall>l\<in>set body. lower (take 6 l) \<noteq> ''[term]'' \<and> rstrip l \<noteq> []"
    and "iter_lines s n body = Inr s'"
  shows "rec_curr s' = None \<and> yielded s' = yielded s \<and> typedefs (rd s') = typedefs (rd s)
         \<and> (typedef_curr s \<noteq> None \<longrightarrow> typedef_curr s' \<noteq> None)"
  using assms
proof (induction body arbitrary: s n)
  case Nil
  then show ?case by simp
next
  case (Cons l body)
  from Cons.prems(3) obtain s1 where s1: "iter_line s n l = Inr s1"
    and rest: "iter_lines s1 (Suc n) body = Inr s'"
    by (auto split: sum.splits)
  from Cons.prems(1,2) s1
  have k: "rec_curr s1 = None \<and> yielded s1 = yielded s \<and> typedefs (rd s1) = typedefs (rd s)
           \<and> (typedef_curr s \<noteq> None \<longrightarrow> typedef_curr s1 \<noteq> None)"
    by (intro iter_line_no_term_open[of s l n s1]) auto
  with Cons.IH[of s1 "Suc n"] Cons.prems(2) rest show ?case by auto
qed

lemma iter_line_typedef_header:
  assumes "rec_curr s = None" and "lower (take 9 hdr) = ''[typedef]''"
    and "iter_line s n hdr = Inr s'"
  shows "rec_curr s' = None \<and> yielded s' = yielded s \<and> typedefs (rd s') = typedefs (rd s)
         \<and> typedef_curr s' = Some TypeDef_init"
  using assms typedef_header_not_term[OF assms(2)]
  by (auto simp: iter_line_def Let_def init_obo_version_keeps init_typedef_def
           split: if_splits sum.splits option.splits)

lemma open_typedef_at_end:
  assumes p: "iter_lines (iter_start rdr) 0 pre = Inr s" and n: "rec_curr s = None"
    and hd: "lower (take 9 hdr) = ''[typedef]''"
    and bd: "\<forall>l\<in>set body. lower (take 6 l) \<noteq> ''[term]'' \<and> rstrip l \<noteq> []"
    and r: "iter_lines (iter_start rdr) 0 (pre @ hdr # body) = Inr s'"
  shows "typedef_curr s' \<noteq> None \<and>
          OBOReader_iter rdr (pre @ hdr # body) = Inr (yielded s, rd s') \<and>
          typedefs (rd s') = typedefs (rd s)"
proof -
  from p r have run: "iter_lines s (length pre) (hdr # body) = Inr s'"
    by (simp add: iter_lines_append)
  then obtain s1 where s1: "iter_line s (length pre) hdr = Inr s1"
    and rest: "iter_lines s1 (Suc (length pre)) body = Inr s'"
    by (auto split: sum.splits)
  from iter_line_typedef_header[OF n hd s1]
  have h: "rec_curr s1 = None \<and> yielded s1 = yielded s \<and> typedefs (rd s1) = typedefs (rd s)
         \<and> typedef_curr s1 = Some TypeDef_init" .
  then have n1: "rec_curr s1 = None" by simp
  from iter_lines_no_term_open[OF n1 bd rest] h
  have b: "rec_curr s' = None \<and> yielded s' = yielded s1 \<and> typedefs (rd s') = typedefs (rd s1)
         \<and> typedef_curr s' \<noteq> None"
    by auto
  from r b h show ?thesis
    by (simp add: OBOReader_iter_def iter_finish_def)
qed

lemma open_term_at_end:
  assumes "iter_lines (iter_start rdr) 0 ls = Inr u" and "rec_curr u = Some t"
  shows "OBOReader_iter rdr ls = Inr (yielded u @ [t], rd u)"
  using assms by (simp add: OBOReader_iter_def iter_finish_def)

text \<open>
  C10.  The file is \<open>pre @ hdr # body\<close>: after \<open>pre\<close> no Term is open, \<open>hdr\<close> is a
  \<^verbatim>\<open>[Typedef]\<close> header, \<open>body\<close> holds no \<^verbatim>\<open>[Term]\<close> header and no blank line, and
  the loop reads the file without error.  Then a Typedef is open when the input ends, the
  iteration ends without error, it yields what \<open>pre\<close> yielded, and the typedef table is
  the table after \<open>pre\<close>: the open Typedef is not stored.  A Term that is open when the
  input ends is yielded as the last record.
\<close>

theorem end_of_input_open_records:
  "(iter_lines (iter_start rdr) 0 pre = Inr s \<and> rec_curr s = None \<and>
      lower (take 9 hdr) = ''[typedef]'' \<and>
      (\<forall>l\<in>set body. lower (take 6 l) \<noteq> ''[term]'' \<and> rstrip l \<noteq> []) \<and>
      iter_lines (iter_start rdr) 0 (pre @ hdr # body) = Inr s'
      \<longrightarrow> typedef_curr s' \<noteq> None \<and>
          OBOReader_iter rdr (pre @ hdr # body) = Inr (yielded s, rd s') \<and>
          typedefs (rd s') = typedefs (rd s))
   \<and> (iter_lines (iter_start rdr) 0 ls = Inr u \<and> rec_curr u = Some t
      \<longrightarrow> OBOReader_iter rdr ls = Inr (yielded u @ [t], rd u))"
  using open_typedef_at_end[of rdr pre s hdr body s'] open_term_at_end[of rdr ls u t]
  by blast

theorem end_of_input_open_records_witness:
  "OBOReader_iter (reader0 [])
      [ln ''[Typedef]'', ln ''id: has_part'', ln [], ln ''[Typedef]'', ln ''id: part_of'', ''inverse_of: has_part'']
     = Inr ([], (reader0 [])\<lparr>typedefs := [(''has_part'', example_has_part)]\<rparr>)
   \<and> OBOReader_iter (reader0 []) [ln ''[Term]'', ln ''id: GO:0000001'', ''name: one'']
     = Inr ([GOTerm_init\<lparr>goid := ''GO:0000001'', name := ''one''\<rparr>], reader0 [])"
proof -
  let ?r = "reader0 []"
  let ?s = "\<lparr>rd = ?r\<lparr>typedefs := [(''has_part'', example_has_part)]\<rparr>, rec_curr = None,
              typedef_curr = None, yielded = []\<rparr>"
  let ?s' = "\<lparr>rd = ?r\<lparr>typedefs := [(''has_part'', example_has_part)]\<rparr>, rec_curr = None,
              typedef_curr = Some (TypeDef_init\<lparr>td_id := ''part_of'', inverse_of := ''has_part''\<rparr>),
              yielded = []\<rparr>"
  let ?u = "\<lparr>rd = ?r, rec_curr = Some (GOTerm_init\<lparr>goid := ''GO:0000001'', name := ''one''\<rparr>),
              typedef_curr = None, yielded = []\<rparr>"
  have p: "iter_lines (iter_start ?r) 0 [ln ''[Typedef]'', ln ''id: has_part'', ln []] = Inr ?s"
    by code_simp
  have h: "lower (take 9 (ln ''[Typedef]'')) = ''[typedef]''"
    by code_simp
  have b: "\<forall>l\<in>set [ln ''id: part_of'', ''inverse_of: has_part'']. lower (take 6 l) \<noteq> ''[term]'' \<and> rstrip l \<noteq> []"
    by code_simp
  have r: "iter_lines (iter_start ?r) 0
             ([ln ''[Typedef]'', ln ''id: has_part'', ln []] @ ln ''[Typedef]'' # [ln ''id: part_of'', ''inverse_of: has_part''])
           = Inr ?s'"
    by code_simp
  have t: "iter_lines (iter_start ?r) 0 [ln ''[Term]'', ln ''id: GO:0000001'', ''name: one''] = Inr ?u"
    by code_simp
  show ?thesis
    using end_of_input_open_records[of ?r "[ln ''[Typedef]'', ln ''id: has_part'', ln []]" ?s
        "ln ''[Typedef]''" "[ln ''id: part_of'', ''inverse_of: has_part'']" ?s'
        "[ln ''[Term]'', ln ''id: GO:0000001'', ''name: one'']" ?u
        "GOTerm_init\<lparr>goid := ''GO:0000001'', name := ''one''\<rparr>"] p h b r t
    by simp
qed

subsection \<open>Relationship lines\<close>

text \<open>
  \<^verbatim>\<open>update_rec\<close> asks whether the record has the attribute \<^verbatim>\<open>relationship\<close> but
  keeps the parsed map under \<^verbatim>\<open>_relationship\<close>, so every \<^verbatim>\<open>relationship:\<close> line of
  a Term starts the map afresh: after two such lines the map holds the second only.  The
  facts on \<^verbatim>\<open>populate_terms\<close> below are about the map as the reader leaves it.
\<close>

lemma second_relationship_line_replaces_first:
  "OBOReader_iter (reader0 [''relationship''])
      [ln ''[Term]'', ln ''id: GO:3'', ln ''relationship: part_of GO:2 ! two'',
       ln ''relationship: regulates GO:1'', ln []]
     = Inr ([GOTerm_init\<lparr>goid := ''GO:3'',
                attrs := [(''_relationship'', RawNested [(''regulates'', [''GO:1''])])]\<rparr>],
            reader0 [''relationship''])"
  by code_simp

section \<open>Assembling the graph\<close>

subsection \<open>Levels and depths\<close>

lemma lvl_ok_parent:
  "lvl_ok h \<Longrightarrow> level (h a) = Some l \<Longrightarrow> p \<in> set (parents (h a)) \<Longrightarrow> level (h p) \<noteq> None"
  unfolding lvl_ok_def by blast

lemma lvl_ok_value:
  "lvl_ok h \<Longrightarrow> level (h a) = Some l \<Longrightarrow>
     l = (if parents (h a) = [] then 0
          else Suc (Min ((\<lambda>p. the (level (h p))) ` set (parents (h a)))))"
  unfolding lvl_ok_def by blast

lemma only_level_refl: "only_level h h"
  by (simp add: only_level_def)

lemma only_level_trans: "only_level h h1 \<Longrightarrow> only_level h1 h2 \<Longrightarrow> only_level h h2"
  by (simp add: only_level_def)

lemma only_level_fields:
  assumes "only_level h h'"
  shows "parents (h' b) = parents (h b)" and "children (h' b) = children (h b)"
    and "depth (h' b) = depth (h b)" and "attrs (h' b) = attrs (h b)"
    and "raw_parents (h' b) = raw_parents (h b)" and "goid (h' b) = goid (h b)"
    and "alt_ids (h' b) = alt_ids (h b)"
proof -
  from assms have e: "(h' b)\<lparr>level := None\<rparr> = (h b)\<lparr>level := None\<rparr>"
    by (simp add: only_level_def)
  show "parents (h' b) = parents (h b)" using arg_cong[OF e, of parents] by simp
  show "children (h' b) = children (h b)" using arg_cong[OF e, of children] by simp
  show "depth (h' b) = depth (h b)" using arg_cong[OF e, of depth] by simp
  show "attrs (h' b) = attrs (h b)" using arg_cong[OF e, of attrs] by simp
  show "raw_parents (h' b) = raw_parents (h b)" using arg_cong[OF e, of raw_parents] by simp
  show "goid (h' b) = goid (h b)" using arg_cong[OF e, of goid] by simp
  show "alt_ids (h' b) = alt_ids (h b)" using arg_cong[OF e, of alt_ids] by simp
qed

lemma only_level_set:
  assumes "level (h a) = None"
  shows "only_level h (h(a := (h a)\<lparr>level := Some x\<rparr>))"
  using assms by (auto simp: only_level_def)

lemma only_level_mono: "only_level h h' \<Longrightarrow> level (h b) = Some x \<Longrightarrow> level (h' b) = Some x"
  by (simp add: only_level_def)

lemma lvl_ok_set:
  assumes ok: "lvl_ok h"
    and ps: "\<forall>p\<in>set (parents (h a)). level (h p) \<noteq> None"
    and v: "v = (if parents (h a) = [] then 0
                 else Suc (Min ((\<lambda>p. the (level (h p))) ` set (parents (h a)))))"
  shows "lvl_ok (h(a := (h a)\<lparr>level := Some v\<rparr>)) \<and> only_level h (h(a := (h a)\<lparr>level := Some v\<rparr>))"
proof (cases "level (h a)")
  case (Some x)
  from lvl_ok_value[OF ok Some] v have "x = v" by simp
  with Some have "(h a)\<lparr>level := Some v\<rparr> = h a" by simp
  then have "h(a := (h a)\<lparr>level := Some v\<rparr>) = h" by simp
  with ok show ?thesis by (simp add: only_level_refl)
next
  case None
  let ?h = "h(a := (h a)\<lparr>level := Some v\<rparr>)"
  have np: "\<And>b l. level (h b) = Some l \<Longrightarrow> a \<notin> set (parents (h b))"
    using lvl_ok_parent[OF ok] None by blast
  have self: "a \<notin> set (parents (h a))" using ps None by blast
  have "lvl_ok ?h"
    unfolding lvl_ok_def
  proof (intro allI impI)
    fix b l
    assume s: "level (?h b) = Some l"
    have na: "\<forall>q\<in>set (parents (h b)). q \<noteq> a"
    proof (cases "b = a")
      case True
      with self show ?thesis by blast
    next
      case False
      with s have "level (h b) = Some l" by simp
      from np[OF this] show ?thesis by blast
    qed
    have pb: "parents (?h b) = parents (h b)" by simp
    have img: "(\<lambda>p. the (level (?h p))) ` set (parents (h b))
                  = (\<lambda>p. the (level (h p))) ` set (parents (h b))"
      using na by (intro image_cong) auto
    have set_ok: "\<forall>p\<in>set (parents (h b)). level (?h p) \<noteq> None"
    proof (cases "b = a")
      case True
      with ps na show ?thesis by auto
    next
      case False
      with s have "level (h b) = Some l" by simp
      from lvl_ok_parent[OF ok this] na show ?thesis by auto
    qed
    have val: "l = (if parents (h b) = [] then 0
             else Suc (Min ((\<lambda>p. the (level (h p))) ` set (parents (h b)))))"
    proof (cases "b = a")
      case True
      with s v show ?thesis by (auto split: if_splits)
    next
      case False
      with s have "level (h b) = Some l" by simp
      from lvl_ok_value[OF ok this] show ?thesis .
    qed
    show "(\<forall>p\<in>set (parents (?h b)). level (?h p) \<noteq> None) \<and>
          l = (if parents (?h b) = [] then 0
               else Suc (Min ((\<lambda>p. the (level (?h p))) ` set (parents (?h b)))))"
      unfolding pb img using set_ok val by blast
  qed
  with only_level_set[of h a v, OF None] show ?thesis by blast
qed

lemma run_list_level:
  assumes f: "level_step f"
  shows "lvl_ok h \<Longrightarrow> run_list f h ps = Inr (h', vs) \<Longrightarrow>
           only_level h h' \<and> map (\<lambda>p. level (h' p)) ps = map Some vs \<and> lvl_ok h'"
proof (induction ps arbitrary: h h' vs)
  case Nil
  then show ?case by (simp add: only_level_refl)
next
  case (Cons p ps)
  from Cons.prems(2) obtain h1 v ws where
    s1: "f h p = Inr (h1, v)" and s2: "run_list f h1 ps = Inr (h', ws)" and vs: "vs = v # ws"
    by (auto split: sum.splits prod.splits)
  from f s1 Cons.prems(1) have a: "only_level h h1" "level (h1 p) = Some v" "lvl_ok h1"
    by (auto simp: level_step_def)
  from Cons.IH[OF a(3) s2] have b: "only_level h1 h'" "map (\<lambda>p. level (h' p)) ps = map Some ws"
    "lvl_ok h'"
    by auto
  from a(2) b(1) have "level (h' p) = Some v" by (rule only_level_mono[rotated])
  with a b vs show ?case by (auto intro: only_level_trans)
qed

lemma map_level_Some:
  "map (\<lambda>p. level (h p)) ps = map Some ls \<Longrightarrow>
     (\<forall>p\<in>set ps. level (h p) \<noteq> None) \<and> set ls = (\<lambda>p. the (level (h p))) ` set ps"
proof (induction ps arbitrary: ls)
  case Nil
  then show ?case by simp
next
  case (Cons p ps)
  then obtain l ls' where "ls = l # ls'" "level (h p) = Some l"
    "map (\<lambda>p. level (h p)) ps = map Some ls'"
    by (cases ls) auto
  with Cons.IH[of ls'] show ?case by auto
qed

lemma init_level_Suc:
  "init_level (Suc n) h a =
     (case level (h a) of
        Some l \<Rightarrow> Inr (h, l)
      | None \<Rightarrow>
          if parents (h a) = [] then Inr (h(a := (h a)\<lparr>level := Some 0\<rparr>), 0)
          else (case run_list (init_level n) h (parents (h a)) of
                  Inl e \<Rightarrow> Inl e
                | Inr (h', ls) \<Rightarrow>
                    Inr (h'(a := (h' a)\<lparr>level := Some (Min (set ls) + 1)\<rparr>), Min (set ls) + 1)))"
  by simp

lemma init_level_0: "init_level 0 h a = Inl RecursionError"
  by simp

lemma init_level_known:
  assumes ok: "lvl_ok h" and r: "init_level (Suc n) h a = Inr (h', v)" and s: "level (h a) = Some l"
  shows "only_level h h' \<and> level (h' a) = Some v \<and> lvl_ok h'"
proof -
  from r s have "h' = h" "v = l" by (simp_all add: init_level_Suc)
  with ok s show ?thesis by (simp add: only_level_refl)
qed

lemma init_level_root:
  assumes ok: "lvl_ok h" and r: "init_level (Suc n) h a = Inr (h', v)" and s: "level (h a) = None"
    and p: "parents (h a) = []"
  shows "only_level h h' \<and> level (h' a) = Some v \<and> lvl_ok h'"
proof -
  from r s p have e: "h' = h(a := (h a)\<lparr>level := Some 0\<rparr>)" "v = 0"
    by (simp_all add: init_level_Suc)
  from p have "\<forall>p\<in>set (parents (h a)). level (h p) \<noteq> None" by simp
  from lvl_ok_set[OF ok this, of 0] p have "lvl_ok h'" "only_level h h'"
    unfolding e by simp_all
  then show ?thesis unfolding e by simp
qed

lemma init_level_inner:
  assumes IH: "level_step (init_level n)"
    and ok: "lvl_ok h" and r: "init_level (Suc n) h a = Inr (h', v)" and s: "level (h a) = None"
    and p: "parents (h a) \<noteq> []"
  shows "only_level h h' \<and> level (h' a) = Some v \<and> lvl_ok h'"
proof -
  from r s p have r': "(case run_list (init_level n) h (parents (h a)) of
                  Inl e \<Rightarrow> Inl e
                | Inr (h', ls) \<Rightarrow>
                    Inr (h'(a := (h' a)\<lparr>level := Some (Min (set ls) + 1)\<rparr>), Min (set ls) + 1))
              = Inr (h', v)"
    by (simp add: init_level_Suc)
  then obtain h1 ls where
    rl: "run_list (init_level n) h (parents (h a)) = Inr (h1, ls)"
    and e: "h' = h1(a := (h1 a)\<lparr>level := Some (Min (set ls) + 1)\<rparr>)" "v = Min (set ls) + 1"
    by (cases "run_list (init_level n) h (parents (h a))") auto
  from run_list_level[OF IH ok rl]
  have k: "only_level h h1" "map (\<lambda>p. level (h1 p)) (parents (h a)) = map Some ls" "lvl_ok h1"
    by blast+
  have pa: "parents (h1 a) = parents (h a)" by (rule only_level_fields(1)[OF k(1)])
  from map_level_Some[OF k(2)]
  have sl: "set ls = (\<lambda>p. the (level (h1 p))) ` set (parents (h a))"
    and al: "\<forall>p\<in>set (parents (h1 a)). level (h1 p) \<noteq> None"
    unfolding pa by blast+
  have vv: "Min (set ls) + 1 = (if parents (h1 a) = [] then 0
           else Suc (Min ((\<lambda>p. the (level (h1 p))) ` set (parents (h1 a)))))"
    unfolding pa sl using p by simp
  from lvl_ok_set[OF k(3) al vv]
  have "lvl_ok h'" "only_level h1 h'" unfolding e by blast+
  with k(1) show ?thesis unfolding e by (auto intro: only_level_trans)
qed

lemma init_level_step: "level_step (init_level n)"
proof (induction n)
  case 0
  show ?case by (simp add: level_step_def)
next
  case (Suc n)
  show ?case
    unfolding level_step_def
  proof (intro allI impI)
    fix h a h' v
    assume ok: "lvl_ok h" and r: "init_level (Suc n) h a = Inr (h', v)"
    show "only_level h h' \<and> level (h' a) = Some v \<and> lvl_ok h'"
    proof (cases "level (h a)")
      case (Some l)
      from init_level_known[OF ok r Some] show ?thesis .
    next
      case None
      show ?thesis
      proof (cases "parents (h a) = []")
        case True
        from init_level_root[OF ok r None True] show ?thesis .
      next
        case False
        from init_level_inner[OF Suc ok r None False] show ?thesis .
      qed
    qed
  qed
qed

lemma dpt_ok_parent:
  "dpt_ok h \<Longrightarrow> depth (h a) = Some l \<Longrightarrow> p \<in> set (parents (h a)) \<Longrightarrow> depth (h p) \<noteq> None"
  unfolding dpt_ok_def by blast

lemma dpt_ok_value:
  "dpt_ok h \<Longrightarrow> depth (h a) = Some l \<Longrightarrow>
     l = (if parents (h a) = [] then 0
          else Suc (Max ((\<lambda>p. the (depth (h p))) ` set (parents (h a)))))"
  unfolding dpt_ok_def by blast

lemma only_depth_refl: "only_depth h h"
  by (simp add: only_depth_def)

lemma only_depth_trans: "only_depth h h1 \<Longrightarrow> only_depth h1 h2 \<Longrightarrow> only_depth h h2"
  by (simp add: only_depth_def)

lemma only_depth_fields:
  assumes "only_depth h h'"
  shows "parents (h' b) = parents (h b)" and "children (h' b) = children (h b)"
    and "level (h' b) = level (h b)" and "attrs (h' b) = attrs (h b)"
    and "raw_parents (h' b) = raw_parents (h b)" and "goid (h' b) = goid (h b)"
    and "alt_ids (h' b) = alt_ids (h b)"
proof -
  from assms have e: "(h' b)\<lparr>depth := None\<rparr> = (h b)\<lparr>depth := None\<rparr>"
    by (simp add: only_depth_def)
  show "parents (h' b) = parents (h b)" using arg_cong[OF e, of parents] by simp
  show "children (h' b) = children (h b)" using arg_cong[OF e, of children] by simp
  show "level (h' b) = level (h b)" using arg_cong[OF e, of level] by simp
  show "attrs (h' b) = attrs (h b)" using arg_cong[OF e, of attrs] by simp
  show "raw_parents (h' b) = raw_parents (h b)" using arg_cong[OF e, of raw_parents] by simp
  show "goid (h' b) = goid (h b)" using arg_cong[OF e, of goid] by simp
  show "alt_ids (h' b) = alt_ids (h b)" using arg_cong[OF e, of alt_ids] by simp
qed

lemma only_depth_set:
  assumes "depth (h a) = None"
  shows "only_depth h (h(a := (h a)\<lparr>depth := Some x\<rparr>))"
  using assms by (auto simp: only_depth_def)

lemma only_depth_mono: "only_depth h h' \<Longrightarrow> depth (h b) = Some x \<Longrightarrow> depth (h' b) = Some x"
  by (simp add: only_depth_def)

lemma dpt_ok_set:
  assumes ok: "dpt_ok h"
    and ps: "\<forall>p\<in>set (parents (h a)). depth (h p) \<noteq> None"
    and v: "v = (if parents (h a) = [] then 0
                 else Suc (Max ((\<lambda>p. the (depth (h p))) ` set (parents (h a)))))"
  shows "dpt_ok (h(a := (h a)\<lparr>depth := Some v\<rparr>)) \<and> only_depth h (h(a := (h a)\<lparr>depth := Some v\<rparr>))"
proof (cases "depth (h a)")
  case (Some x)
  from dpt_ok_value[OF ok Some] v have "x = v" by simp
  with Some have "(h a)\<lparr>depth := Some v\<rparr> = h a" by simp
  then have "h(a := (h a)\<lparr>depth := Some v\<rparr>) = h" by simp
  with ok show ?thesis by (simp add: only_depth_refl)
next
  case None
  let ?h = "h(a := (h a)\<lparr>depth := Some v\<rparr>)"
  have np: "\<And>b l. depth (h b) = Some l \<Longrightarrow> a \<notin> set (parents (h b))"
    using dpt_ok_parent[OF ok] None by blast
  have self: "a \<notin> set (parents (h a))" using ps None by blast
  have "dpt_ok ?h"
    unfolding dpt_ok_def
  proof (intro allI impI)
    fix b l
    assume s: "depth (?h b) = Some l"
    have na: "\<forall>q\<in>set (parents (h b)). q \<noteq> a"
    proof (cases "b = a")
      case True
      with self show ?thesis by blast
    next
      case False
      with s have "depth (h b) = Some l" by simp
      from np[OF this] show ?thesis by blast
    qed
    have pb: "parents (?h b) = parents (h b)" by simp
    have img: "(\<lambda>p. the (depth (?h p))) ` set (parents (h b))
                  = (\<lambda>p. the (depth (h p))) ` set (parents (h b))"
      using na by (intro image_cong) auto
    have set_ok: "\<forall>p\<in>set (parents (h b)). depth (?h p) \<noteq> None"
    proof (cases "b = a")
      case True
      with ps na show ?thesis by auto
    next
      case False
      with s have "depth (h b) = Some l" by simp
      from dpt_ok_parent[OF ok this] na show ?thesis by auto
    qed
    have val: "l = (if parents (h b) = [] then 0
             else Suc (Max ((\<lambda>p. the (depth (h p))) ` set (parents (h b)))))"
    proof (cases "b = a")
      case True
      with s v show ?thesis by (auto split: if_splits)
    next
      case False
      with s have "depth (h b) = Some l" by simp
      from dpt_ok_value[OF ok this] show ?thesis .
    qed
    show "(\<forall>p\<in>set (parents (?h b)). depth (?h p) \<noteq> None) \<and>
          l = (if parents (?h b) = [] then 0
               else Suc (Max ((\<lambda>p. the (depth (?h p))) ` set (parents (?h b)))))"
      unfolding pb img using set_ok val by blast
  qed
  with only_depth_set[of h a v, OF None] show ?thesis by blast
qed

lemma run_list_depth:
  assumes f: "depth_step f"
  shows "dpt_ok h \<Longrightarrow> run_list f h ps = Inr (h', vs) \<Longrightarrow>
           only_depth h h' \<and> map (\<lambda>p. depth (h' p)) ps = map Some vs \<and> dpt_ok h'"
proof (induction ps arbitrary: h h' vs)
  case Nil
  then show ?case by (simp add: only_depth_refl)
next
  case (Cons p ps)
  from Cons.prems(2) obtain h1 v ws where
    s1: "f h p = Inr (h1, v)" and s2: "run_list f h1 ps = Inr (h', ws)" and vs: "vs = v # ws"
    by (auto split: sum.splits prod.splits)
  from f s1 Cons.prems(1) have a: "only_depth h h1" "depth (h1 p) = Some v" "dpt_ok h1"
    by (auto simp: depth_step_def)
  from Cons.IH[OF a(3) s2] have b: "only_depth h1 h'" "map (\<lambda>p. depth (h' p)) ps = map Some ws"
    "dpt_ok h'"
    by auto
  from a(2) b(1) have "depth (h' p) = Some v" by (rule only_depth_mono[rotated])
  with a b vs show ?case by (auto intro: only_depth_trans)
qed

lemma map_depth_Some:
  "map (\<lambda>p. depth (h p)) ps = map Some ls \<Longrightarrow>
     (\<forall>p\<in>set ps. depth (h p) \<noteq> None) \<and> set ls = (\<lambda>p. the (depth (h p))) ` set ps"
proof (induction ps arbitrary: ls)
  case Nil
  then show ?case by simp
next
  case (Cons p ps)
  then obtain l ls' where "ls = l # ls'" "depth (h p) = Some l"
    "map (\<lambda>p. depth (h p)) ps = map Some ls'"
    by (cases ls) auto
  with Cons.IH[of ls'] show ?case by auto
qed

lemma init_depth_Suc:
  "init_depth (Suc n) h a =
     (case depth (h a) of
        Some l \<Rightarrow> Inr (h, l)
      | None \<Rightarrow>
          if parents (h a) = [] then Inr (h(a := (h a)\<lparr>depth := Some 0\<rparr>), 0)
          else (case run_list (init_depth n) h (parents (h a)) of
                  Inl e \<Rightarrow> Inl e
                | Inr (h', ls) \<Rightarrow>
                    Inr (h'(a := (h' a)\<lparr>depth := Some (Max (set ls) + 1)\<rparr>), Max (set ls) + 1)))"
  by simp

lemma init_depth_0: "init_depth 0 h a = Inl RecursionError"
  by simp

lemma init_depth_known:
  assumes ok: "dpt_ok h" and r: "init_depth (Suc n) h a = Inr (h', v)" and s: "depth (h a) = Some l"
  shows "only_depth h h' \<and> depth (h' a) = Some v \<and> dpt_ok h'"
proof -
  from r s have "h' = h" "v = l" by (simp_all add: init_depth_Suc)
  with ok s show ?thesis by (simp add: only_depth_refl)
qed

lemma init_depth_root:
  assumes ok: "dpt_ok h" and r: "init_depth (Suc n) h a = Inr (h', v)" and s: "depth (h a) = None"
    and p: "parents (h a) = []"
  shows "only_depth h h' \<and> depth (h' a) = Some v \<and> dpt_ok h'"
proof -
  from r s p have e: "h' = h(a := (h a)\<lparr>depth := Some 0\<rparr>)" "v = 0"
    by (simp_all add: init_depth_Suc)
  from p have "\<forall>p\<in>set (parents (h a)). depth (h p) \<noteq> None" by simp
  from dpt_ok_set[OF ok this, of 0] p have "dpt_ok h'" "only_depth h h'"
    unfolding e by simp_all
  then show ?thesis unfolding e by simp
qed

lemma init_depth_inner:
  assumes IH: "depth_step (init_depth n)"
    and ok: "dpt_ok h" and r: "init_depth (Suc n) h a = Inr (h', v)" and s: "depth (h a) = None"
    and p: "parents (h a) \<noteq> []"
  shows "only_depth h h' \<and> depth (h' a) = Some v \<and> dpt_ok h'"
proof -
  from r s p have r': "(case run_list (init_depth n) h (parents (h a)) of
                  Inl e \<Rightarrow> Inl e
                | Inr (h', ls) \<Rightarrow>
                    Inr (h'(a := (h' a)\<lparr>depth := Some (Max (set ls) + 1)\<rparr>), Max (set ls) + 1))
              = Inr (h', v)"
    by (simp add: init_depth_Suc)
  then obtain h1 ls where
    rl: "run_list (init_depth n) h (parents (h a)) = Inr (h1, ls)"
    and e: "h' = h1(a := (h1 a)\<lparr>depth := Some (Max (set ls) + 1)\<rparr>)" "v = Max (set ls) + 1"
    by (cases "run_list (init_depth n) h (parents (h a))") auto
  from run_list_depth[OF IH ok rl]
  have k: "only_depth h h1" "map (\<lambda>p. depth (h1 p)) (parents (h a)) = map Some ls" "dpt_ok h1"
    by blast+
  have pa: "parents (h1 a) = parents (h a)" by (rule only_depth_fields(1)[OF k(1)])
  from map_depth_Some[OF k(2)]
  have sl: "set ls = (\<lambda>p. the (depth (h1 p))) ` set (parents (h a))"
    and al: "\<forall>p\<in>set (parents (h1 a)). depth (h1 p) \<noteq> None"
    unfolding pa by blast+
  have vv: "Max (set ls) + 1 = (if parents (h1 a) = [] then 0
           else Suc (Max ((\<lambda>p. the (depth (h1 p))) ` set (parents (h1 a)))))"
    unfolding pa sl using p by simp
  from dpt_ok_set[OF k(3) al vv]
  have "dpt_ok h'" "only_depth h1 h'" unfolding e by blast+
  with k(1) show ?thesis unfolding e by (auto intro: only_depth_trans)
qed

lemma init_depth_step: "depth_step (init_depth n)"
proof (induction n)
  case 0
  show ?case by (simp add: depth_step_def)
next
  case (Suc n)
  show ?case
    unfolding depth_step_def
  proof (intro allI impI)
    fix h a h' v
    assume ok: "dpt_ok h" and r: "init_depth (Suc n) h a = Inr (h', v)"
    show "only_depth h h' \<and> depth (h' a) = Some v \<and> dpt_ok h'"
    proof (cases "depth (h a)")
      case (Some l)
      from init_depth_known[OF ok r Some] show ?thesis .
    next
      case None
      show ?thesis
      proof (cases "parents (h a) = []")
        case True
        from init_depth_root[OF ok r None True] show ?thesis .
      next
        case False
        from init_depth_inner[OF Suc ok r None False] show ?thesis .
      qed
    qed
  qed
qed

lemma dpt_parent_less:
  assumes ok: "dpt_ok h" and d: "depth (h a) = Some d" and p: "p \<in> set (parents (h a))"
  shows "\<exists>dp. depth (h p) = Some dp \<and> dp < d"
proof -
  from dpt_ok_parent[OF ok d p] obtain dp where dp: "depth (h p) = Some dp" by blast
  from p have ne: "parents (h a) \<noteq> []" by auto
  from dpt_ok_value[OF ok d] ne
  have "d = Suc (Max ((\<lambda>p. the (depth (h p))) ` set (parents (h a))))" by simp
  moreover have "the (depth (h p)) \<le> Max ((\<lambda>p. the (depth (h p))) ` set (parents (h a)))"
    using p by (intro Max_ge) auto
  ultimately show ?thesis using dp by auto
qed

lemma level_le_depth:
  assumes lo: "lvl_ok h" and dok: "dpt_ok h"
  shows "level (h a) = Some l \<Longrightarrow> depth (h a) = Some d \<Longrightarrow> l \<le> d"
proof (induction d arbitrary: a l rule: less_induct)
  case (less d)
  show ?case
  proof (cases "parents (h a) = []")
    case True
    with lvl_ok_value[OF lo less.prems(1)] show ?thesis by simp
  next
    case False
    then obtain p where p: "p \<in> set (parents (h a))" by (cases "parents (h a)") auto
    from dpt_parent_less[OF dok less.prems(2) p] obtain dp where
      dp: "depth (h p) = Some dp" "dp < d" by blast
    from lvl_ok_parent[OF lo less.prems(1) p] obtain lp where lp: "level (h p) = Some lp" by blast
    from less.IH[OF dp(2) lp dp(1)] have le: "lp \<le> dp" .
    have "Min ((\<lambda>p. the (level (h p))) ` set (parents (h a))) \<le> the (level (h p))"
      using p by (intro Min_le) auto
    with lp have m: "Min ((\<lambda>p. the (level (h p))) ` set (parents (h a))) \<le> lp" by simp
    from lvl_ok_value[OF lo less.prems(1)] False
    have "l = Suc (Min ((\<lambda>p. the (level (h p))) ` set (parents (h a))))" by simp
    with m le dp(2) show ?thesis by linarith
  qed
qed

lemma keeps_refl: "keeps f h h"
  by (simp add: keeps_def)

lemma keeps_trans: "keeps f h h1 \<Longrightarrow> keeps f h1 h2 \<Longrightarrow> keeps f h h2"
  by (simp add: keeps_def)

lemma keepsD: "keeps f h h' \<Longrightarrow> f (h' b) = f (h b)"
  by (simp add: keeps_def)

lemma lvl_ok_keeps:
  assumes "keeps level h h'" and "keeps parents h h'" and "lvl_ok h"
  shows "lvl_ok h'"
proof -
  from assms have e: "\<And>b. level (h' b) = level (h b)" "\<And>b. parents (h' b) = parents (h b)"
    by (simp_all add: keeps_def)
  from assms(3) show ?thesis unfolding lvl_ok_def by (simp only: e)
qed

lemma dpt_ok_keeps:
  assumes "keeps depth h h'" and "keeps parents h h'" and "dpt_ok h"
  shows "dpt_ok h'"
proof -
  from assms have e: "\<And>b. depth (h' b) = depth (h b)" "\<And>b. parents (h' b) = parents (h b)"
    by (simp_all add: keeps_def)
  from assms(3) show ?thesis unfolding dpt_ok_def by (simp only: e)
qed

lemma only_level_keeps:
  assumes "only_level h h'"
  shows "keeps depth h h'" "keeps parents h h'" "keeps children h h'" "keeps attrs h h'"
    "keeps raw_parents h h'"
  unfolding keeps_def using only_level_fields[OF assms] by simp_all

lemma only_depth_keeps:
  assumes "only_depth h h'"
  shows "keeps level h h'" "keeps parents h h'" "keeps children h h'" "keeps attrs h h'"
    "keeps raw_parents h h'"
  unfolding keeps_def using only_depth_fields[OF assms] by simp_all

subsection \<open>Children\<close>

lemma add_children_keeps:
  "keeps level h (add_children h a ps)" "keeps depth h (add_children h a ps)"
  "keeps parents h (add_children h a ps)" "keeps attrs h (add_children h a ps)"
  "keeps raw_parents h (add_children h a ps)"
  unfolding keeps_def by (induction ps arbitrary: h; simp)+

lemma add_children_children:
  "children (add_children h a ps b) =
     (if b \<in> set ps \<and> a \<notin> set (children (h b)) then children (h b) @ [a] else children (h b))"
  by (induction ps arbitrary: h) auto

subsection \<open>Relationships\<close>

lemma rel_add_fields:
  assumes "rel_add t k a = Inr t'"
  shows "level t' = level t" "depth t' = depth t" "parents t' = parents t"
    "children t' = children t" "raw_parents t' = raw_parents t"
  using assms
  by (auto simp: rel_add_def setattr_def split: if_splits option.splits attr.splits)

lemma invert_targets_keeps:
  assumes "invert_targets h a k ts = Inr h'"
  shows "keeps level h h' \<and> keeps depth h h' \<and> keeps parents h h' \<and> keeps children h h'
         \<and> keeps raw_parents h h'"
  using assms
proof (induction ts arbitrary: h)
  case Nil
  then show ?case by (simp add: keeps_refl)
next
  case (Cons t ts)
  from Cons.prems obtain t' where t': "rel_add (h t) k a = Inr t'"
    and r: "invert_targets (h(t := t')) a k ts = Inr h'"
    by (cases "rel_add (h t) k a") auto
  from rel_add_fields[OF t'] have
    "keeps level h (h(t := t'))" "keeps depth h (h(t := t'))" "keeps parents h (h(t := t'))"
    "keeps children h (h(t := t'))" "keeps raw_parents h (h(t := t'))"
    by (simp_all add: keeps_def)
  with Cons.IH[OF r] show ?case by (blast intro: keeps_trans)
qed

lemma invert_items_keeps:
  assumes "invert_items tds h a n ks = Inr h'"
  shows "keeps level h h' \<and> keeps depth h h' \<and> keeps parents h h' \<and> keeps children h h'
         \<and> keeps raw_parents h h'"
  using assms
proof (induction ks arbitrary: h)
  case Nil
  then show ?case by (simp add: keeps_refl)
next
  case (Cons k ks)
  from Cons.prems obtain td where td: "map_of tds k = Some td"
    by (cases "map_of tds k") auto
  let ?m = "if inverse_of td \<noteq> []
            then invert_targets h a (inverse_of td) (rel_get (rel_of (h a)) k) else Inr h"
  from Cons.prems td obtain h1 where h1: "?m = Inr h1"
    and r: "invert_items tds h1 a n ks = Inr h'"
    by (cases ?m) (auto split: if_splits)
  have "keeps level h h1 \<and> keeps depth h h1 \<and> keeps parents h h1 \<and> keeps children h h1
         \<and> keeps raw_parents h h1"
  proof (cases "inverse_of td \<noteq> []")
    case True
    with h1 show ?thesis by (simp add: invert_targets_keeps)
  next
    case False
    with h1 show ?thesis by (simp add: keeps_refl)
  qed
  with Cons.IH[OF r] show ?case by (blast intro: keeps_trans)
qed

lemma invert_rec_keeps:
  assumes "invert_rec tds h a = Inr h'"
  shows "keeps level h h' \<and> keeps depth h h' \<and> keeps parents h h' \<and> keeps children h h'
         \<and> keeps raw_parents h h'"
proof (cases "hasattr (h a) ''relationship''")
  case False
  with assms show ?thesis by (simp add: invert_rec_def keeps_refl)
next
  case True
  show ?thesis
  proof (cases "map_of (attrs (h a)) ''relationship''")
    case None
    with assms True show ?thesis by (simp add: invert_rec_def)
  next
    case (Some v)
    show ?thesis
    proof (cases v)
      case (Rel d)
      with assms True Some have "invert_items tds h a (length d) (map fst d) = Inr h'"
        by (simp add: invert_rec_def)
      then show ?thesis by (rule invert_items_keeps)
    qed (use assms True Some in \<open>simp_all add: invert_rec_def\<close>)
  qed
qed

subsection \<open>The second loop and the metrics\<close>

lemma populate_rec_cases:
  assumes "populate_rec lim tds h a = Inr h'"
  obtains h2 h3 where
    "invert_rec tds (add_children h a (parents (h a))) a = Inr h2"
    and "level (h2 a) = None \<longrightarrow> (\<exists>v. init_level lim h2 a = Inr (h3, v))"
    and "level (h2 a) \<noteq> None \<longrightarrow> h3 = h2"
    and "depth (h3 a) = None \<longrightarrow> (\<exists>v. init_depth lim h3 a = Inr (h', v))"
    and "depth (h3 a) \<noteq> None \<longrightarrow> h' = h3"
proof -
  from assms obtain h2 where h2: "invert_rec tds (add_children h a (parents (h a))) a = Inr h2"
    by (cases "invert_rec tds (add_children h a (parents (h a))) a") (simp_all add: populate_rec_def)
  let ?l = "if level (h2 a) = None
            then (case init_level lim h2 a of Inl e \<Rightarrow> Inl e | Inr (h', _) \<Rightarrow> Inr h')
            else Inr h2"
  from assms h2 obtain h3 where h3: "?l = Inr h3"
    by (cases ?l) (simp_all add: populate_rec_def)
  from assms h2 h3 have d: "(if depth (h3 a) = None
               then (case init_depth lim h3 a of Inl e \<Rightarrow> Inl e | Inr (h', _) \<Rightarrow> Inr h')
               else Inr h3) = Inr h'"
    by (simp add: populate_rec_def)
  have l1: "level (h2 a) = None \<longrightarrow> (\<exists>v. init_level lim h2 a = Inr (h3, v))"
    using h3 by (cases "init_level lim h2 a") (auto split: if_splits)
  have l2: "level (h2 a) \<noteq> None \<longrightarrow> h3 = h2"
    using h3 by (auto split: if_splits)
  have d1: "depth (h3 a) = None \<longrightarrow> (\<exists>v. init_depth lim h3 a = Inr (h', v))"
    using d by (cases "init_depth lim h3 a") (auto split: if_splits)
  have d2: "depth (h3 a) \<noteq> None \<longrightarrow> h' = h3"
    using d by (auto split: if_splits)
  from that[OF h2 l1 l2 d1 d2] show thesis .
qed

lemma metrics_grow_refl: "metrics_grow h h"
  by (simp add: metrics_grow_def keeps_refl)

lemma metrics_grow_trans: "metrics_grow h h1 \<Longrightarrow> metrics_grow h1 h2 \<Longrightarrow> metrics_grow h h2"
  unfolding metrics_grow_def by (blast intro: keeps_trans)

lemma metrics_grow_keeps:
  assumes "keeps level h h'" "keeps depth h h'" "keeps parents h h'" "keeps raw_parents h h'"
  shows "metrics_grow h h'"
  using assms unfolding metrics_grow_def keeps_def by simp

lemma metrics_grow_level:
  assumes "only_level h h'"
  shows "metrics_grow h h'"
  using only_level_keeps[OF assms] only_level_mono[OF assms]
  unfolding metrics_grow_def keeps_def by simp

lemma metrics_grow_depth:
  assumes "only_depth h h'"
  shows "metrics_grow h h'"
  using only_depth_keeps[OF assms] only_depth_mono[OF assms]
  unfolding metrics_grow_def keeps_def by simp

lemma populate_rec_metrics:
  assumes run: "populate_rec lim tds h a = Inr h'" and lo: "lvl_ok h" and dok: "dpt_ok h"
  shows "lvl_ok h' \<and> dpt_ok h' \<and> metrics_grow h h' \<and>
         level (h' a) \<noteq> None \<and> depth (h' a) \<noteq> None"
proof -
  from run obtain h2 h3 where
    h2: "invert_rec tds (add_children h a (parents (h a))) a = Inr h2"
    and l1: "level (h2 a) = None \<longrightarrow> (\<exists>v. init_level lim h2 a = Inr (h3, v))"
    and l2: "level (h2 a) \<noteq> None \<longrightarrow> h3 = h2"
    and d1: "depth (h3 a) = None \<longrightarrow> (\<exists>v. init_depth lim h3 a = Inr (h', v))"
    and d2: "depth (h3 a) \<noteq> None \<longrightarrow> h' = h3"
    by (rule populate_rec_cases)
  let ?h1 = "add_children h a (parents (h a))"
  have k1: "keeps level h ?h1" "keeps depth h ?h1" "keeps parents h ?h1" "keeps raw_parents h ?h1"
    by (rule add_children_keeps)+
  from invert_rec_keeps[OF h2]
  have k2: "keeps level ?h1 h2" "keeps depth ?h1 h2" "keeps parents ?h1 h2" "keeps raw_parents ?h1 h2"
    by blast+
  have k: "keeps level h h2" "keeps depth h h2" "keeps parents h h2" "keeps raw_parents h h2"
    using k1 k2 by (blast intro: keeps_trans)+
  have lo2: "lvl_ok h2" using lvl_ok_keeps[OF k(1) k(3) lo] .
  have do2: "dpt_ok h2" using dpt_ok_keeps[OF k(2) k(3) dok] .
  have g2: "metrics_grow h h2" using metrics_grow_keeps[OF k] .
  have s3: "lvl_ok h3 \<and> dpt_ok h3 \<and> metrics_grow h2 h3 \<and> level (h3 a) \<noteq> None"
  proof (cases "level (h2 a) = None")
    case True
    with l1 obtain v where v: "init_level lim h2 a = Inr (h3, v)" by blast
    from init_level_step[of lim] lo2 v
    have o: "only_level h2 h3" "level (h3 a) = Some v" "lvl_ok h3"
      unfolding level_step_def by blast+
    from dpt_ok_keeps[OF only_level_keeps(1,2)[OF o(1)] do2] have "dpt_ok h3" .
    with o metrics_grow_level[OF o(1)] show ?thesis by simp
  next
    case False
    with l2 have "h3 = h2" by blast
    with False lo2 do2 show ?thesis by (simp add: metrics_grow_refl)
  qed
  have s4: "lvl_ok h' \<and> dpt_ok h' \<and> metrics_grow h3 h' \<and> depth (h' a) \<noteq> None"
  proof (cases "depth (h3 a) = None")
    case True
    with d1 obtain v where v: "init_depth lim h3 a = Inr (h', v)" by blast
    from init_depth_step[of lim] s3 v
    have o: "only_depth h3 h'" "depth (h' a) = Some v" "dpt_ok h'"
      unfolding depth_step_def by blast+
    from lvl_ok_keeps[OF only_depth_keeps(1,2)[OF o(1)]] s3 have "lvl_ok h'" by blast
    with o metrics_grow_depth[OF o(1)] show ?thesis by simp
  next
    case False
    with d2 have "h' = h3" by blast
    with False s3 show ?thesis by (simp add: metrics_grow_refl)
  qed
  from s3 s4 have "level (h' a) \<noteq> None"
    unfolding metrics_grow_def by (metis option.exhaust)
  moreover from g2 s3 s4 have "metrics_grow h h'" by (blast intro: metrics_grow_trans)
  ultimately show ?thesis using s4 by blast
qed

lemma populate_loop_metrics:
  assumes "populate_loop lim tds h as = Inr h'" and "lvl_ok h" and "dpt_ok h"
  shows "lvl_ok h' \<and> dpt_ok h' \<and> metrics_grow h h' \<and>
         (\<forall>a\<in>set as. level (h' a) \<noteq> None \<and> depth (h' a) \<noteq> None)"
  using assms
proof (induction as arbitrary: h)
  case Nil
  then show ?case by (simp add: metrics_grow_refl)
next
  case (Cons a as)
  from Cons.prems(1) obtain h1 where h1: "populate_rec lim tds h a = Inr h1"
    and r: "populate_loop lim tds h1 as = Inr h'"
    by (cases "populate_rec lim tds h a") auto
  from populate_rec_metrics[OF h1 Cons.prems(2,3)]
  have a: "lvl_ok h1" "dpt_ok h1" "metrics_grow h h1" "level (h1 a) \<noteq> None" "depth (h1 a) \<noteq> None"
    by blast+
  from Cons.IH[OF r a(1,2)]
  have b: "lvl_ok h'" "dpt_ok h'" "metrics_grow h1 h'"
    "\<forall>a\<in>set as. level (h' a) \<noteq> None \<and> depth (h' a) \<noteq> None"
    by blast+
  from a(4,5) b(3) have "level (h' a) \<noteq> None \<and> depth (h' a) \<noteq> None"
    unfolding metrics_grow_def by (metis option.exhaust)
  with a b show ?case by (auto intro: metrics_grow_trans)
qed

subsection \<open>The first loop\<close>

lemma link_rec_facts:
  assumes "link_rec g a = Inr g'"
  shows "terms g' = terms g" and "dag_typedefs g' = dag_typedefs g"
    and "keeps level (heap g) (heap g')" and "keeps depth (heap g) (heap g')"
    and "keeps children (heap g) (heap g')" and "keeps raw_parents (heap g) (heap g')"
    and "resolve (terms g) (raw_parents (heap g a)) = Inr (parents (heap g' a))"
    and "\<forall>b. b \<noteq> a \<longrightarrow> heap g' b = heap g b"
proof -
  from assms obtain ps where ps: "resolve (terms g) (raw_parents (heap g a)) = Inr ps"
    by (cases "resolve (terms g) (raw_parents (heap g a))") (simp_all add: link_rec_def)
  let ?r = "(heap g a)\<lparr>parents := ps\<rparr>"
  from assms ps obtain r' where g': "g' = g\<lparr>heap := (heap g)(a := r')\<rparr>"
    and r': "r' = ?r \<or> (\<exists>rel. r' = delattr (setattr ?r ''relationship'' (Rel rel)) ''_relationship'')"
    by (auto simp: link_rec_def Let_def split: if_splits option.splits attr.splits sum.splits)
  from r' have f: "level r' = level (heap g a)" "depth r' = depth (heap g a)"
    "children r' = children (heap g a)" "raw_parents r' = raw_parents (heap g a)"
    "parents r' = ps"
    by (auto simp: delattr_def setattr_def)
  show "terms g' = terms g" "dag_typedefs g' = dag_typedefs g" using g' by simp_all
  show "keeps level (heap g) (heap g')" "keeps depth (heap g) (heap g')"
    "keeps children (heap g) (heap g')" "keeps raw_parents (heap g) (heap g')"
    using g' f by (simp_all add: keeps_def)
  show "resolve (terms g) (raw_parents (heap g a)) = Inr (parents (heap g' a))"
    using g' f ps by simp
  show "\<forall>b. b \<noteq> a \<longrightarrow> heap g' b = heap g b" using g' by simp
qed

lemma link_all_facts:
  assumes "link_all g as = Inr g'"
  shows "terms g' = terms g \<and> dag_typedefs g' = dag_typedefs g \<and>
         keeps level (heap g) (heap g') \<and> keeps depth (heap g) (heap g') \<and>
         keeps children (heap g) (heap g') \<and> keeps raw_parents (heap g) (heap g') \<and>
         (\<forall>a\<in>set as. resolve (terms g) (raw_parents (heap g a)) = Inr (parents (heap g' a)))"
  using assms
proof (induction as arbitrary: g)
  case Nil
  then show ?case by (simp add: keeps_refl)
next
  case (Cons a as)
  from Cons.prems obtain g1 where g1: "link_rec g a = Inr g1" and r: "link_all g1 as = Inr g'"
    by (cases "link_rec g a") auto
  note f = link_rec_facts[OF g1]
  from Cons.IH[OF r] have b: "terms g' = terms g1" "dag_typedefs g' = dag_typedefs g1"
    "keeps level (heap g1) (heap g')" "keeps depth (heap g1) (heap g')"
    "keeps children (heap g1) (heap g')" "keeps raw_parents (heap g1) (heap g')"
    "\<forall>a\<in>set as. resolve (terms g1) (raw_parents (heap g1 a)) = Inr (parents (heap g' a))"
    by blast+
  have raw: "raw_parents (heap g1 b) = raw_parents (heap g b)" for b
    using f(6) by (simp add: keeps_def)
  have rest: "\<forall>a\<in>set as. resolve (terms g) (raw_parents (heap g a)) = Inr (parents (heap g' a))"
    using b(7) f(1) raw by simp
  have here: "resolve (terms g) (raw_parents (heap g a)) = Inr (parents (heap g' a))"
  proof (cases "a \<in> set as")
    case True
    with rest show ?thesis by blast
  next
    case False
    have "heap g' a = heap g1 a" using r False
    proof (induction as arbitrary: g1)
      case Nil
      then show ?case by simp
    next
      case (Cons c cs)
      from Cons.prems(1) obtain g2 where g2: "link_rec g1 c = Inr g2" and r2: "link_all g2 cs = Inr g'"
        by (cases "link_rec g1 c") auto
      from Cons.prems(2) have "c \<noteq> a" "a \<notin> set cs" by auto
      with Cons.IH[OF r2] link_rec_facts(8)[OF g2] show ?case by simp
    qed
    with f(7) show ?thesis by simp
  qed
  from f b rest here show ?case by (auto intro: keeps_trans)
qed

lemma lvl_ok_fresh: "\<forall>b. level (h b) = None \<Longrightarrow> lvl_ok h"
  by (simp add: lvl_ok_def)

lemma dpt_ok_fresh: "\<forall>b. depth (h b) = None \<Longrightarrow> dpt_ok h"
  by (simp add: dpt_ok_def)

lemma populate_terms_metrics:
  assumes run: "populate_terms lim g = Inr g'"
    and fresh: "\<forall>b. level (heap g b) = None \<and> depth (heap g b) = None"
  shows "lvl_ok (heap g') \<and> dpt_ok (heap g') \<and> terms g' = terms g \<and>
         (\<forall>a\<in>set (dag_values g'). level (heap g' a) \<noteq> None \<and> depth (heap g' a) \<noteq> None)"
proof -
  from run obtain g1 where g1: "link_all g (dag_values g) = Inr g1"
    by (cases "link_all g (dag_values g)") (simp_all add: populate_terms_def)
  with run obtain h where h: "populate_loop lim (dag_typedefs g1) (heap g1) (dag_values g1) = Inr h"
    and g': "g' = g1\<lparr>heap := h\<rparr>"
    by (cases "populate_loop lim (dag_typedefs g1) (heap g1) (dag_values g1)")
       (simp_all add: populate_terms_def)
  from link_all_facts[OF g1] have l: "terms g1 = terms g"
    "keeps level (heap g) (heap g1)" "keeps depth (heap g) (heap g1)"
    by blast+
  from l(2,3) fresh have "\<forall>b. level (heap g1 b) = None" "\<forall>b. depth (heap g1 b) = None"
    by (simp_all add: keeps_def)
  then have "lvl_ok (heap g1)" "dpt_ok (heap g1)"
    by (simp_all add: lvl_ok_fresh dpt_ok_fresh)
  from populate_loop_metrics[OF h this] show ?thesis
    using g' l(1) by (simp add: dag_values_def)
qed

subsection \<open>Records as the reader yields them\<close>

lemma fresh_init: "fresh GOTerm_init"
  by (simp add: fresh_def GOTerm_init_def)

lemma fresh_attrs: "fresh (r\<lparr>attrs := x\<rparr>) = fresh r"
  by (simp add: fresh_def)

lemma add_nested_fresh:
  assumes "add_nested r n v = Inr r'" and "fresh r"
  shows "fresh r'"
  using assms
  by (auto simp: add_nested_def setattr_def fresh_def
           split: list.splits option.splits attr.splits)

lemma update_rec_fresh:
  assumes "update_rec r n v = Inr r'" and "fresh r"
  shows "fresh r'"
proof -
  let ?n = "if n = ''def'' then ''defn'' else n"
  have s: "fresh (setattr r k x)" for k x
    using assms(2) by (simp add: setattr_def fresh_attrs)
  from assms(1) have
    "(\<exists>k x. r' = setattr r k x) \<or> add_nested r ?n v = Inr r' \<or>
     add_nested (setattr r (CHR ''_'' # ?n) (RawNested [])) (CHR ''_'' # ?n) v = Inr r'"
    unfolding update_rec_def Let_def
    by (auto split: if_splits option.splits attr.splits)
  then show ?thesis
    using s add_nested_fresh assms(2) by blast
qed

lemma add_to_ref_fresh:
  assumes "add_to_ref rdr r line n = Inr r'" and "fresh r"
  shows "fresh r'"
proof (cases "re_match_field line")
  case None
  with assms show ?thesis by (simp add: add_to_ref_def)
next
  case (Some m)
  obtain f v where m: "m = (f, v)" by (cases m)
  from assms(1) Some m have
    "update_rec r f v = Inr r' \<or> r' = r \<or> (\<exists>x. r' = r\<lparr>goid := x\<rparr>) \<or> (\<exists>x. r' = r\<lparr>alt_ids := x\<rparr>)
     \<or> (\<exists>x. r' = r\<lparr>name := x\<rparr>) \<or> (\<exists>x. r' = r\<lparr>namespace := x\<rparr>)
     \<or> (\<exists>x. r' = r\<lparr>raw_parents := x\<rparr>) \<or> (\<exists>x. r' = r\<lparr>is_obsolete := x\<rparr>)"
    unfolding add_to_ref_def
    by (auto split: if_splits sum.splits)
  then show ?thesis
    using update_rec_fresh[of r f v r'] assms(2) by (auto simp: fresh_def)
qed

lemma iter_line_fresh:
  assumes "iter_line s n l = Inr s'" and "iter_fresh s"
  shows "iter_fresh s'"
proof -
  let ?s = "if data_version (rd s) = None then s\<lparr>rd := init_obo_version (rd s) l\<rparr> else s"
  have e: "yielded ?s = yielded s" "rec_curr ?s = rec_curr s" by simp_all
  from assms(1) have
    "(\<exists>x. s' = ?s\<lparr>rec_curr := Some GOTerm_init\<rparr>) \<or> (\<exists>x. s' = ?s\<lparr>typedef_curr := x\<rparr>)
     \<or> (\<exists>r r'. rec_curr ?s = Some r \<and> add_to_ref (rd ?s) r (rstrip l) n = Inr r' \<and> s' = ?s\<lparr>rec_curr := Some r'\<rparr>)
     \<or> (\<exists>r. rec_curr ?s = Some r \<and> s' = ?s\<lparr>yielded := yielded ?s @ [r], rec_curr := None\<rparr>)
     \<or> (\<exists>x y. s' = ?s\<lparr>rd := x, typedef_curr := y\<rparr>)
     \<or> s' = ?s"
    unfolding iter_line_def Let_def init_goterm_ref_def
    by (auto split: if_splits sum.splits option.splits)
  then show ?thesis
    using assms(2) add_to_ref_fresh fresh_init unfolding iter_fresh_def e
    by (elim disjE exE conjE) (auto simp: e)
qed

lemma iter_lines_fresh:
  "iter_lines s n ls = Inr s' \<Longrightarrow> iter_fresh s \<Longrightarrow> iter_fresh s'"
proof (induction ls arbitrary: s n)
  case Nil
  then show ?case by simp
next
  case (Cons l ls)
  from Cons.prems(1) obtain s1 where s1: "iter_line s n l = Inr s1"
    and r: "iter_lines s1 (Suc n) ls = Inr s'"
    by (cases "iter_line s n l") auto
  from Cons.IH[OF r iter_line_fresh[OF s1 Cons.prems(2)]] show ?case .
qed

lemma OBOReader_iter_fresh:
  assumes "OBOReader_iter rdr ls = Inr (recs, rdr')"
  shows "\<forall>r\<in>set recs. fresh r"
proof -
  from assms obtain s where s: "iter_lines (iter_start rdr) 0 ls = Inr s"
    and recs: "recs = yielded (iter_finish s)"
    by (cases "iter_lines (iter_start rdr) 0 ls") (simp_all add: OBOReader_iter_def)
  have "iter_fresh (iter_start rdr)" by (simp add: iter_fresh_def iter_start_def)
  from iter_lines_fresh[OF s this] have "iter_fresh s" .
  then show ?thesis unfolding recs iter_fresh_def iter_finish_def
    by (auto split: option.splits)
qed

lemma heap_of_fresh:
  assumes "\<forall>r\<in>set recs. fresh r"
  shows "fresh (heap_of recs b)"
  using assms by (simp add: heap_of_def fresh_init)

text \<open>The pieces of a successful load.\<close>

lemma load_obo_file_cases:
  assumes "load_obo_file lim file contents optional load_obsolete = Inr g"
  obtains reader ls recs reader' where
    "contents = Some ls"
    and "OBOReader_init file contents optional = Inr reader"
    and "OBOReader_iter reader ls = Inr (recs, reader')"
    and "populate_terms lim
           \<lparr> terms = load_recs load_obsolete [] 0 recs, heap = heap_of recs,
             dag_typedefs = typedefs reader', dag_optional_attrs = optional_attrs reader' \<rparr> = Inr g"
proof -
  from assms obtain reader where a: "OBOReader_init file contents optional = Inr reader"
    by (cases "OBOReader_init file contents optional") (simp_all add: load_obo_file_def)
  with assms obtain ls where c: "contents = Some ls"
    by (cases contents) (simp_all add: load_obo_file_def)
  with assms a obtain x where b: "OBOReader_iter reader ls = Inr x"
    by (cases "OBOReader_iter reader ls") (simp_all add: load_obo_file_def)
  obtain recs reader' where x: "x = (recs, reader')" by (cases x)
  from assms a b c x that show thesis by (simp add: load_obo_file_def)
qed

lemma load_obo_file_metrics:
  assumes "load_obo_file lim file contents optional load_obsolete = Inr g"
  shows "lvl_ok (heap g) \<and> dpt_ok (heap g) \<and>
         (\<forall>a\<in>set (dag_values g). level (heap g a) \<noteq> None \<and> depth (heap g a) \<noteq> None)"
proof -
  from assms obtain reader ls recs reader' where
    it: "OBOReader_iter reader ls = Inr (recs, reader')"
    and p: "populate_terms lim
           \<lparr> terms = load_recs load_obsolete [] 0 recs, heap = heap_of recs,
             dag_typedefs = typedefs reader', dag_optional_attrs = optional_attrs reader' \<rparr> = Inr g"
    by (rule load_obo_file_cases)
  from heap_of_fresh[OF OBOReader_iter_fresh[OF it]]
  have "\<forall>b. level (heap_of recs b) = None \<and> depth (heap_of recs b) = None"
    by (simp add: fresh_def)
  with populate_terms_metrics[OF p] show ?thesis by simp
qed

text \<open>
  C1.  In every graph that \<^verbatim>\<open>load_obo_file\<close> assembles, a Term of the graph whose
  \<open>parents\<close> list is empty has level 0 and depth 0.  This covers the isolated Term,
  which has no parents and is no Term's parent.
\<close>

theorem roots_have_level_and_depth_zero:
  assumes "load_obo_file lim file contents optional load_obsolete = Inr g"
    and "a \<in> set (dag_values g)" and "parents (heap g a) = []"
  shows "level (heap g a) = Some 0 \<and> depth (heap g a) = Some 0"
proof -
  from load_obo_file_metrics[OF assms(1)] assms(2) obtain l d where
    ok: "lvl_ok (heap g)" "dpt_ok (heap g)" and s: "level (heap g a) = Some l" "depth (heap g a) = Some d"
    by auto
  from lvl_ok_value[OF ok(1) s(1)] dpt_ok_value[OF ok(2) s(2)] assms(3) s show ?thesis by simp
qed

text \<open>
  C2.  In every graph that \<^verbatim>\<open>load_obo_file\<close> assembles, every Term of the graph has
  a level and a depth; the level is 0 at a root and otherwise one more than the least
  level of its parents, the depth is 0 at a root and otherwise one more than the greatest
  depth of its parents, and the level is at most the depth.  No assumption on cycles is
  needed: on a cycle of parents the load ends in \<^verbatim>\<open>RecursionError\<close> and assembles
  no graph.
\<close>

theorem level_at_most_depth:
  assumes "load_obo_file lim file contents optional load_obsolete = Inr g"
    and "a \<in> set (dag_values g)"
  shows "\<exists>l d. level (heap g a) = Some l \<and> depth (heap g a) = Some d \<and>
           l = (if parents (heap g a) = [] then 0
                else 1 + Min ((\<lambda>p. the (level (heap g p))) ` set (parents (heap g a)))) \<and>
           d = (if parents (heap g a) = [] then 0
                else 1 + Max ((\<lambda>p. the (depth (heap g p))) ` set (parents (heap g a)))) \<and>
           l \<le> d"
proof -
  from load_obo_file_metrics[OF assms(1)] assms(2) obtain l d where
    ok: "lvl_ok (heap g)" "dpt_ok (heap g)" and s: "level (heap g a) = Some l" "depth (heap g a) = Some d"
    by auto
  from lvl_ok_value[OF ok(1) s(1)] dpt_ok_value[OF ok(2) s(2)] level_le_depth[OF ok s] s
  show ?thesis by simp
qed

subsection \<open>What the metric functions leave alone\<close>

lemma run_list_rel:
  assumes step: "\<And>h p h' v. f h p = Inr (h', v) \<Longrightarrow> R h h'"
    and refl: "\<And>h. R h h" and trans: "\<And>h h1 h2. R h h1 \<Longrightarrow> R h1 h2 \<Longrightarrow> R h h2"
  shows "run_list f h ps = Inr (h', vs) \<Longrightarrow> R h h'"
proof (induction ps arbitrary: h vs)
  case Nil
  then show ?case by (simp add: refl)
next
  case (Cons p ps)
  from Cons.prems obtain h1 v where s1: "f h p = Inr (h1, v)"
    by (cases "f h p") auto
  with Cons.prems obtain ws where s2: "run_list f h1 ps = Inr (h', ws)"
    by (cases "run_list f h1 ps") auto
  from trans[OF step[OF s1] Cons.IH[OF s2]] show ?case .
qed

lemma level_frame_refl: "level_frame h h"
  by (simp add: level_frame_def)

lemma level_frame_trans: "level_frame h h1 \<Longrightarrow> level_frame h1 h2 \<Longrightarrow> level_frame h h2"
  by (simp add: level_frame_def)

lemma depth_frame_refl: "depth_frame h h"
  by (simp add: depth_frame_def)

lemma depth_frame_trans: "depth_frame h h1 \<Longrightarrow> depth_frame h1 h2 \<Longrightarrow> depth_frame h h2"
  by (simp add: depth_frame_def)

lemma init_level_frame: "init_level n h a = Inr (h', v) \<Longrightarrow> level_frame h h'"
proof (induction n arbitrary: h a h' v)
  case 0
  then show ?case by simp
next
  case (Suc n)
  show ?case
  proof (cases "level (h a)")
    case (Some l)
    with Suc.prems show ?thesis by (simp add: init_level_Suc level_frame_refl)
  next
    case None
    show ?thesis
    proof (cases "parents (h a) = []")
      case True
      with None Suc.prems have "h' = h(a := (h a)\<lparr>level := Some 0\<rparr>)"
        by (simp add: init_level_Suc)
      then show ?thesis by (simp add: level_frame_def)
    next
      case False
      with None Suc.prems obtain h1 ls where
        rl: "run_list (init_level n) h (parents (h a)) = Inr (h1, ls)"
        and e: "h' = h1(a := (h1 a)\<lparr>level := Some (Min (set ls) + 1)\<rparr>)"
        by (cases "run_list (init_level n) h (parents (h a))") (auto simp: init_level_Suc)
      have "level_frame h h1"
        by (rule run_list_rel[where R = level_frame, OF Suc.IH level_frame_refl level_frame_trans rl])
      moreover have "level_frame h1 h'" unfolding e by (simp add: level_frame_def)
      ultimately show ?thesis by (rule level_frame_trans)
    qed
  qed
qed

lemma init_depth_frame: "init_depth n h a = Inr (h', v) \<Longrightarrow> depth_frame h h'"
proof (induction n arbitrary: h a h' v)
  case 0
  then show ?case by simp
next
  case (Suc n)
  show ?case
  proof (cases "depth (h a)")
    case (Some l)
    with Suc.prems show ?thesis by (simp add: init_depth_Suc depth_frame_refl)
  next
    case None
    show ?thesis
    proof (cases "parents (h a) = []")
      case True
      with None Suc.prems have "h' = h(a := (h a)\<lparr>depth := Some 0\<rparr>)"
        by (simp add: init_depth_Suc)
      then show ?thesis by (simp add: depth_frame_def)
    next
      case False
      with None Suc.prems obtain h1 ls where
        rl: "run_list (init_depth n) h (parents (h a)) = Inr (h1, ls)"
        and e: "h' = h1(a := (h1 a)\<lparr>depth := Some (Max (set ls) + 1)\<rparr>)"
        by (cases "run_list (init_depth n) h (parents (h a))") (auto simp: init_depth_Suc)
      have "depth_frame h h1"
        by (rule run_list_rel[where R = depth_frame, OF Suc.IH depth_frame_refl depth_frame_trans rl])
      moreover have "depth_frame h1 h'" unfolding e by (simp add: depth_frame_def)
      ultimately show ?thesis by (rule depth_frame_trans)
    qed
  qed
qed

lemma level_frame_keeps:
  assumes "level_frame h h'"
  shows "keeps depth h h'" "keeps parents h h'" "keeps children h h'" "keeps attrs h h'"
    "keeps raw_parents h h'"
proof -
  have e: "(h' b)\<lparr>level := None\<rparr> = (h b)\<lparr>level := None\<rparr>" for b
    using assms by (simp add: level_frame_def)
  show "keeps depth h h'" unfolding keeps_def using arg_cong[OF e, of depth] by simp
  show "keeps parents h h'" unfolding keeps_def using arg_cong[OF e, of parents] by simp
  show "keeps children h h'" unfolding keeps_def using arg_cong[OF e, of children] by simp
  show "keeps attrs h h'" unfolding keeps_def using arg_cong[OF e, of attrs] by simp
  show "keeps raw_parents h h'" unfolding keeps_def using arg_cong[OF e, of raw_parents] by simp
qed

lemma depth_frame_keeps:
  assumes "depth_frame h h'"
  shows "keeps level h h'" "keeps parents h h'" "keeps children h h'" "keeps attrs h h'"
    "keeps raw_parents h h'"
proof -
  have e: "(h' b)\<lparr>depth := None\<rparr> = (h b)\<lparr>depth := None\<rparr>" for b
    using assms by (simp add: depth_frame_def)
  show "keeps level h h'" unfolding keeps_def using arg_cong[OF e, of level] by simp
  show "keeps parents h h'" unfolding keeps_def using arg_cong[OF e, of parents] by simp
  show "keeps children h h'" unfolding keeps_def using arg_cong[OF e, of children] by simp
  show "keeps attrs h h'" unfolding keeps_def using arg_cong[OF e, of attrs] by simp
  show "keeps raw_parents h h'" unfolding keeps_def using arg_cong[OF e, of raw_parents] by simp
qed

text \<open>The second loop body, cut at the point where the relationships are done.\<close>

lemma populate_rec_frames:
  assumes run: "populate_rec lim tds h a = Inr h'"
  obtains h2 where "invert_rec tds (add_children h a (parents (h a))) a = Inr h2"
    and "keeps children h2 h'" and "keeps attrs h2 h'" and "keeps parents h2 h'"
proof -
  from run obtain h2 h3 where
    h2: "invert_rec tds (add_children h a (parents (h a))) a = Inr h2"
    and l1: "level (h2 a) = None \<longrightarrow> (\<exists>v. init_level lim h2 a = Inr (h3, v))"
    and l2: "level (h2 a) \<noteq> None \<longrightarrow> h3 = h2"
    and d1: "depth (h3 a) = None \<longrightarrow> (\<exists>v. init_depth lim h3 a = Inr (h', v))"
    and d2: "depth (h3 a) \<noteq> None \<longrightarrow> h' = h3"
    by (rule populate_rec_cases)
  have k3: "keeps children h2 h3 \<and> keeps attrs h2 h3 \<and> keeps parents h2 h3"
  proof (cases "level (h2 a) = None")
    case True
    with l1 obtain v where v: "init_level lim h2 a = Inr (h3, v)" by blast
    from level_frame_keeps[OF init_level_frame[OF v]] show ?thesis by blast
  next
    case False
    with l2 show ?thesis by (simp add: keeps_refl)
  qed
  have k4: "keeps children h3 h' \<and> keeps attrs h3 h' \<and> keeps parents h3 h'"
  proof (cases "depth (h3 a) = None")
    case True
    with d1 obtain v where v: "init_depth lim h3 a = Inr (h', v)" by blast
    from depth_frame_keeps[OF init_depth_frame[OF v]] show ?thesis by blast
  next
    case False
    with d2 show ?thesis by (simp add: keeps_refl)
  qed
  from k3 k4 have "keeps children h2 h'" "keeps attrs h2 h'" "keeps parents h2 h'"
    by (blast intro: keeps_trans)+
  with h2 that show thesis by blast
qed

subsection \<open>Children\<close>

lemma children_grow_refl: "children_grow h h"
  by (simp add: children_grow_def)

lemma children_grow_trans:
  "children_grow h h1 \<Longrightarrow> children_grow h1 h2 \<Longrightarrow> children_grow h h2"
  unfolding children_grow_def by blast

lemma children_grow_keeps: "keeps children h h' \<Longrightarrow> children_grow h h'"
  by (simp add: children_grow_def keeps_def)

lemma add_children_grow: "children_grow h (add_children h a ps)"
  unfolding children_grow_def by (auto simp: add_children_children)

lemma add_children_member: "p \<in> set ps \<Longrightarrow> a \<in> set (children (add_children h a ps p))"
  by (simp add: add_children_children)

lemma populate_rec_children:
  assumes run: "populate_rec lim tds h a = Inr h'"
  shows "children_grow h h' \<and> keeps parents h h' \<and>
         (\<forall>p\<in>set (parents (h a)). a \<in> set (children (h' p)))"
proof -
  let ?h1 = "add_children h a (parents (h a))"
  from run obtain h2 where h2: "invert_rec tds ?h1 a = Inr h2"
    and k: "keeps children h2 h'" "keeps parents h2 h'"
    by (rule populate_rec_frames)
  from invert_rec_keeps[OF h2] have k2: "keeps children ?h1 h2" "keeps parents ?h1 h2" by blast+
  from k(1) k2(1) have kc: "keeps children ?h1 h'" by (blast intro: keeps_trans)
  from add_children_keeps(3)[of h a "parents (h a)"] k2(2) k(2) have kp: "keeps parents h h'"
    by (blast intro: keeps_trans)
  have "children_grow h h'"
    using add_children_grow children_grow_keeps[OF kc] by (rule children_grow_trans)
  moreover have "\<forall>p\<in>set (parents (h a)). a \<in> set (children (h' p))"
    using add_children_member[of _ "parents (h a)" a h] keepsD[OF kc] by simp
  ultimately show ?thesis using kp by blast
qed

lemma populate_loop_children:
  assumes "populate_loop lim tds h as = Inr h'"
  shows "children_grow h h' \<and> keeps parents h h' \<and>
         (\<forall>a\<in>set as. \<forall>p\<in>set (parents (h a)). a \<in> set (children (h' p)))"
  using assms
proof (induction as arbitrary: h)
  case Nil
  then show ?case by (simp add: children_grow_refl keeps_refl)
next
  case (Cons a as)
  from Cons.prems obtain h1 where h1: "populate_rec lim tds h a = Inr h1"
    and r: "populate_loop lim tds h1 as = Inr h'"
    by (cases "populate_rec lim tds h a") auto
  from populate_rec_children[OF h1]
  have a: "children_grow h h1" "keeps parents h h1"
    "\<forall>p\<in>set (parents (h a)). a \<in> set (children (h1 p))"
    by blast+
  from Cons.IH[OF r]
  have b: "children_grow h1 h'" "keeps parents h1 h'"
    "\<forall>a\<in>set as. \<forall>p\<in>set (parents (h1 a)). a \<in> set (children (h' p))"
    by blast+
  have here: "\<forall>p\<in>set (parents (h a)). a \<in> set (children (h' p))"
    using a(3) b(1) unfolding children_grow_def by blast
  have rest: "\<forall>a\<in>set as. \<forall>p\<in>set (parents (h a)). a \<in> set (children (h' p))"
    using b(3) keepsD[OF a(2)] by simp
  from a b here rest show ?case by (auto intro: children_grow_trans keeps_trans)
qed

lemma count_list_distinct: "distinct xs \<Longrightarrow> x \<in> set xs \<Longrightarrow> count_list xs x = 1"
  by (induction xs) (auto simp: count_list_0_iff)

lemma populate_terms_children:
  assumes run: "populate_terms lim g = Inr g'"
    and fresh: "\<forall>b. distinct (children (heap g b))"
    and t: "t \<in> set (dag_values g')" and p: "p \<in> set (parents (heap g' t))"
  shows "count_list (children (heap g' p)) t = 1"
proof -
  from run obtain g1 where g1: "link_all g (dag_values g) = Inr g1"
    by (cases "link_all g (dag_values g)") (simp_all add: populate_terms_def)
  with run obtain h where h: "populate_loop lim (dag_typedefs g1) (heap g1) (dag_values g1) = Inr h"
    and g': "g' = g1\<lparr>heap := h\<rparr>"
    by (cases "populate_loop lim (dag_typedefs g1) (heap g1) (dag_values g1)")
       (simp_all add: populate_terms_def)
  from link_all_facts[OF g1] have l: "keeps children (heap g) (heap g1)" by blast
  with fresh have d1: "\<forall>b. distinct (children (heap g1 b))" by (simp add: keeps_def)
  from populate_loop_children[OF h]
  have c: "children_grow (heap g1) h" "keeps parents (heap g1) h"
    "\<forall>a\<in>set (dag_values g1). \<forall>p\<in>set (parents (heap g1 a)). a \<in> set (children (h p))"
    by blast+
  from c(1) d1 have "distinct (children (h p))" unfolding children_grow_def by blast
  moreover have "t \<in> set (children (h p))"
  proof -
    from t g' have t1: "t \<in> set (dag_values g1)" by (simp add: dag_values_def)
    from p g' keepsD[OF c(2), of t] have "p \<in> set (parents (heap g1 t))" by simp
    with c(3) t1 show ?thesis by blast
  qed
  ultimately show ?thesis using g' by (simp add: count_list_distinct)
qed

text \<open>
  C3.  In every graph that \<^verbatim>\<open>load_obo_file\<close> assembles, a Term \<open>t\<close> of the graph
  occurs exactly once in the \<open>children\<close> list of every Term \<open>p\<close> that occurs in
  \<open>t\<close>'s \<open>parents\<close> list, however often \<open>p\<close> occurs there.
\<close>

theorem child_listed_once:
  assumes "load_obo_file lim file contents optional load_obsolete = Inr g"
    and "t \<in> set (dag_values g)" and "p \<in> set (parents (heap g t))"
  shows "count_list (children (heap g p)) t = 1"
proof -
  from assms(1) obtain reader ls recs reader' where
    it: "OBOReader_iter reader ls = Inr (recs, reader')"
    and po: "populate_terms lim
           \<lparr> terms = load_recs load_obsolete [] 0 recs, heap = heap_of recs,
             dag_typedefs = typedefs reader', dag_optional_attrs = optional_attrs reader' \<rparr> = Inr g"
    by (rule load_obo_file_cases)
  from heap_of_fresh[OF OBOReader_iter_fresh[OF it]]
  have "\<forall>b. distinct (children (heap_of recs b))"
    by (simp add: fresh_def)
  with populate_terms_children[OF po _ assms(2,3)] show ?thesis by simp
qed

subsection \<open>Running the assembly again\<close>

lemma populate_rec_known:
  assumes run: "populate_rec lim tds h a = Inr h'"
    and l: "level (h a) \<noteq> None" and d: "depth (h a) \<noteq> None"
  shows "keeps level h h' \<and> keeps depth h h'"
proof -
  from run obtain h2 h3 where
    h2: "invert_rec tds (add_children h a (parents (h a))) a = Inr h2"
    and l2: "level (h2 a) \<noteq> None \<longrightarrow> h3 = h2"
    and d2: "depth (h3 a) \<noteq> None \<longrightarrow> h' = h3"
    by (rule populate_rec_cases)
  let ?h1 = "add_children h a (parents (h a))"
  have k1: "keeps level h ?h1" "keeps depth h ?h1" by (rule add_children_keeps)+
  from invert_rec_keeps[OF h2] have k2: "keeps level ?h1 h2" "keeps depth ?h1 h2" by blast+
  have k: "keeps level h h2" "keeps depth h h2" using k1 k2 by (blast intro: keeps_trans)+
  from l keepsD[OF k(1), of a] l2 have "h3 = h2" by simp
  moreover from d keepsD[OF k(2), of a] this d2 have "h' = h3" by simp
  ultimately show ?thesis using k by simp
qed

lemma populate_loop_known:
  assumes "populate_loop lim tds h as = Inr h'"
    and "\<forall>a\<in>set as. level (h a) \<noteq> None \<and> depth (h a) \<noteq> None"
  shows "keeps level h h' \<and> keeps depth h h'"
  using assms
proof (induction as arbitrary: h)
  case Nil
  then show ?case by (simp add: keeps_refl)
next
  case (Cons a as)
  from Cons.prems(1) obtain h1 where h1: "populate_rec lim tds h a = Inr h1"
    and r: "populate_loop lim tds h1 as = Inr h'"
    by (cases "populate_rec lim tds h a") auto
  from Cons.prems(2) have "level (h a) \<noteq> None" "depth (h a) \<noteq> None" by simp_all
  from populate_rec_known[OF h1 this] have k: "keeps level h h1" "keeps depth h h1" by blast+
  with Cons.prems(2) have "\<forall>a\<in>set as. level (h1 a) \<noteq> None \<and> depth (h1 a) \<noteq> None"
    by (simp add: keeps_def)
  from Cons.IH[OF r this] k show ?case by (blast intro: keeps_trans)
qed

text \<open>
  C8.  When every Term of the graph already has its level and its depth, a run of
  \<^verbatim>\<open>populate_terms\<close> that returns leaves the level and the depth of every Term
  object as they were.
\<close>

theorem populate_terms_again_keeps_metrics:
  assumes run: "populate_terms lim g = Inr g'"
    and full: "\<forall>a\<in>set (dag_values g). level (heap g a) \<noteq> None \<and> depth (heap g a) \<noteq> None"
  shows "\<forall>b. level (heap g' b) = level (heap g b) \<and> depth (heap g' b) = depth (heap g b)"
proof -
  from run obtain g1 where g1: "link_all g (dag_values g) = Inr g1"
    by (cases "link_all g (dag_values g)") (simp_all add: populate_terms_def)
  with run obtain h where h: "populate_loop lim (dag_typedefs g1) (heap g1) (dag_values g1) = Inr h"
    and g': "g' = g1\<lparr>heap := h\<rparr>"
    by (cases "populate_loop lim (dag_typedefs g1) (heap g1) (dag_values g1)")
       (simp_all add: populate_terms_def)
  from link_all_facts[OF g1] have l: "terms g1 = terms g"
    "keeps level (heap g) (heap g1)" "keeps depth (heap g) (heap g1)"
    by blast+
  from full l have "\<forall>a\<in>set (dag_values g1). level (heap g1 a) \<noteq> None \<and> depth (heap g1 a) \<noteq> None"
    by (simp add: keeps_def dag_values_def)
  from populate_loop_known[OF h this] have "keeps level (heap g1) h" "keeps depth (heap g1) h"
    by blast+
  with l(2,3) have "keeps level (heap g) h" "keeps depth (heap g) h"
    by (blast intro: keeps_trans)+
  then show ?thesis using g' by (simp add: keeps_def)
qed

subsection \<open>Identifiers of the objects\<close>

lemma same_ids_refl: "same_ids h h"
  by (simp add: same_ids_def)

lemma same_ids_trans: "same_ids h h1 \<Longrightarrow> same_ids h1 h2 \<Longrightarrow> same_ids h h2"
  by (simp add: same_ids_def)

lemma same_ids_upd:
  assumes "goid r = goid (h a)" and "alt_ids r = alt_ids (h a)"
  shows "same_ids h (h(a := r))"
  using assms by (simp add: same_ids_def)

lemma add_children_ids: "same_ids h (add_children h a ps)"
proof (induction ps arbitrary: h)
  case Nil
  show ?case by (simp add: same_ids_refl)
next
  case (Cons p ps)
  let ?h = "if a \<notin> set (children (h p)) then h(p := (h p)\<lparr>children := children (h p) @ [a]\<rparr>) else h"
  have "same_ids h ?h" by (simp add: same_ids_def)
  from same_ids_trans[OF this Cons.IH[of ?h]] show ?case by simp
qed

lemma rel_add_ids:
  assumes "rel_add t k a = Inr t'"
  shows "goid t' = goid t \<and> alt_ids t' = alt_ids t"
  using assms
  by (auto simp: rel_add_def setattr_def split: if_splits option.splits attr.splits)

lemma invert_targets_ids:
  assumes "invert_targets h a k ts = Inr h'"
  shows "same_ids h h'"
  using assms
proof (induction ts arbitrary: h)
  case Nil
  then show ?case by (simp add: same_ids_refl)
next
  case (Cons t ts)
  from Cons.prems obtain t' where t': "rel_add (h t) k a = Inr t'"
    and r: "invert_targets (h(t := t')) a k ts = Inr h'"
    by (cases "rel_add (h t) k a") auto
  from rel_add_ids[OF t'] have "same_ids h (h(t := t'))" by (simp add: same_ids_def)
  from same_ids_trans[OF this Cons.IH[OF r]] show ?case .
qed

lemma invert_items_ids:
  assumes "invert_items tds h a n ks = Inr h'"
  shows "same_ids h h'"
  using assms
proof (induction ks arbitrary: h)
  case Nil
  then show ?case by (simp add: same_ids_refl)
next
  case (Cons k ks)
  from Cons.prems obtain td where td: "map_of tds k = Some td"
    by (cases "map_of tds k") auto
  let ?m = "if inverse_of td \<noteq> []
            then invert_targets h a (inverse_of td) (rel_get (rel_of (h a)) k) else Inr h"
  from Cons.prems td obtain h1 where h1: "?m = Inr h1"
    and r: "invert_items tds h1 a n ks = Inr h'"
    by (cases ?m) (auto split: if_splits)
  have "same_ids h h1"
  proof (cases "inverse_of td \<noteq> []")
    case True
    with h1 show ?thesis by (simp add: invert_targets_ids)
  next
    case False
    with h1 show ?thesis by (simp add: same_ids_refl)
  qed
  from same_ids_trans[OF this Cons.IH[OF r]] show ?case .
qed

lemma invert_rec_ids:
  assumes "invert_rec tds h a = Inr h'"
  shows "same_ids h h'"
proof (cases "hasattr (h a) ''relationship''")
  case False
  with assms show ?thesis by (simp add: invert_rec_def same_ids_refl)
next
  case True
  show ?thesis
  proof (cases "map_of (attrs (h a)) ''relationship''")
    case None
    with assms True show ?thesis by (simp add: invert_rec_def)
  next
    case (Some v)
    show ?thesis
    proof (cases v)
      case (Rel d)
      with assms True Some have "invert_items tds h a (length d) (map fst d) = Inr h'"
        by (simp add: invert_rec_def)
      then show ?thesis by (rule invert_items_ids)
    qed (use assms True Some in \<open>simp_all add: invert_rec_def\<close>)
  qed
qed

lemma level_frame_ids: "level_frame h h' \<Longrightarrow> same_ids h h'"
proof -
  assume a: "level_frame h h'"
  have e: "(h' b)\<lparr>level := None\<rparr> = (h b)\<lparr>level := None\<rparr>" for b
    using a by (simp add: level_frame_def)
  show ?thesis unfolding same_ids_def
    using arg_cong[OF e, of goid] arg_cong[OF e, of alt_ids] by simp
qed

lemma depth_frame_ids: "depth_frame h h' \<Longrightarrow> same_ids h h'"
proof -
  assume a: "depth_frame h h'"
  have e: "(h' b)\<lparr>depth := None\<rparr> = (h b)\<lparr>depth := None\<rparr>" for b
    using a by (simp add: depth_frame_def)
  show ?thesis unfolding same_ids_def
    using arg_cong[OF e, of goid] arg_cong[OF e, of alt_ids] by simp
qed

lemma populate_rec_ids:
  assumes run: "populate_rec lim tds h a = Inr h'"
  shows "same_ids h h'"
proof -
  from run obtain h2 h3 where
    h2: "invert_rec tds (add_children h a (parents (h a))) a = Inr h2"
    and l1: "level (h2 a) = None \<longrightarrow> (\<exists>v. init_level lim h2 a = Inr (h3, v))"
    and l2: "level (h2 a) \<noteq> None \<longrightarrow> h3 = h2"
    and d1: "depth (h3 a) = None \<longrightarrow> (\<exists>v. init_depth lim h3 a = Inr (h', v))"
    and d2: "depth (h3 a) \<noteq> None \<longrightarrow> h' = h3"
    by (rule populate_rec_cases)
  have s2: "same_ids h h2"
    using add_children_ids invert_rec_ids[OF h2] by (rule same_ids_trans)
  have s3: "same_ids h2 h3"
  proof (cases "level (h2 a) = None")
    case True
    with l1 obtain v where "init_level lim h2 a = Inr (h3, v)" by blast
    then show ?thesis by (intro level_frame_ids init_level_frame)
  next
    case False
    with l2 show ?thesis by (simp add: same_ids_refl)
  qed
  have s4: "same_ids h3 h'"
  proof (cases "depth (h3 a) = None")
    case True
    with d1 obtain v where "init_depth lim h3 a = Inr (h', v)" by blast
    then show ?thesis by (intro depth_frame_ids init_depth_frame)
  next
    case False
    with d2 show ?thesis by (simp add: same_ids_refl)
  qed
  from s2 s3 s4 show ?thesis by (blast intro: same_ids_trans)
qed

lemma populate_loop_ids:
  "populate_loop lim tds h as = Inr h' \<Longrightarrow> same_ids h h'"
proof (induction as arbitrary: h)
  case Nil
  then show ?case by (simp add: same_ids_refl)
next
  case (Cons a as)
  from Cons.prems obtain h1 where h1: "populate_rec lim tds h a = Inr h1"
    and r: "populate_loop lim tds h1 as = Inr h'"
    by (cases "populate_rec lim tds h a") auto
  from same_ids_trans[OF populate_rec_ids[OF h1] Cons.IH[OF r]] show ?case .
qed

lemma link_rec_ids:
  assumes "link_rec g a = Inr g'"
  shows "same_ids (heap g) (heap g')"
proof -
  from assms obtain ps where ps: "resolve (terms g) (raw_parents (heap g a)) = Inr ps"
    by (cases "resolve (terms g) (raw_parents (heap g a))") (simp_all add: link_rec_def)
  let ?r = "(heap g a)\<lparr>parents := ps\<rparr>"
  from assms ps obtain r' where g': "g' = g\<lparr>heap := (heap g)(a := r')\<rparr>"
    and r': "r' = ?r \<or> (\<exists>rel. r' = delattr (setattr ?r ''relationship'' (Rel rel)) ''_relationship'')"
    by (auto simp: link_rec_def Let_def split: if_splits option.splits attr.splits sum.splits)
  from r' have "goid r' = goid (heap g a)" "alt_ids r' = alt_ids (heap g a)"
    by (auto simp: delattr_def setattr_def)
  from same_ids_upd[of r' "heap g" a, OF this] g' show ?thesis by simp
qed

lemma link_all_ids:
  "link_all g as = Inr g' \<Longrightarrow> same_ids (heap g) (heap g')"
proof (induction as arbitrary: g)
  case Nil
  then show ?case by (simp add: same_ids_refl)
next
  case (Cons a as)
  from Cons.prems obtain g1 where g1: "link_rec g a = Inr g1" and r: "link_all g1 as = Inr g'"
    by (cases "link_rec g a") auto
  from same_ids_trans[OF link_rec_ids[OF g1] Cons.IH[OF r]] show ?case .
qed

lemma populate_terms_ids:
  assumes run: "populate_terms lim g = Inr g'"
  shows "terms g' = terms g \<and> same_ids (heap g) (heap g')"
proof -
  from run obtain g1 where g1: "link_all g (dag_values g) = Inr g1"
    by (cases "link_all g (dag_values g)") (simp_all add: populate_terms_def)
  with run obtain h where h: "populate_loop lim (dag_typedefs g1) (heap g1) (dag_values g1) = Inr h"
    and g': "g' = g1\<lparr>heap := h\<rparr>"
    by (cases "populate_loop lim (dag_typedefs g1) (heap g1) (dag_values g1)")
       (simp_all add: populate_terms_def)
  from link_all_facts[OF g1] have "terms g1 = terms g" by blast
  moreover from same_ids_trans[OF link_all_ids[OF g1] populate_loop_ids[OF h]]
  have "same_ids (heap g) h" .
  ultimately show ?thesis using g' by simp
qed

subsection \<open>The identifier index\<close>

lemma map_of_store_alts:
  "map_of (fold (\<lambda>alt d'. AList.update alt a d') alts d) k =
     (if k \<in> set alts then Some a else map_of d k)"
  by (induction alts arbitrary: d) (auto simp: update_conv')

lemma map_of_store:
  "map_of (fold (\<lambda>alt d'. AList.update alt a d') (alt_ids r) (AList.update (goid r) a d)) k =
     (if k \<in> set (keys_of r) then Some a else map_of d k)"
  by (simp add: map_of_store_alts keys_of_def update_conv')

lemma load_recs_untouched:
  assumes "\<forall>r\<in>set recs. retained lo r \<longrightarrow> k \<notin> set (keys_of r)"
  shows "map_of (load_recs lo d a recs) k = map_of d k"
  using assms
proof (induction recs arbitrary: d a)
  case Nil
  then show ?case by simp
next
  case (Cons r recs)
  let ?d = "if lo \<or> \<not> is_obsolete r
            then fold (\<lambda>alt d'. AList.update alt a d') (alt_ids r) (AList.update (goid r) a d)
            else d"
  from Cons.prems have "map_of ?d k = map_of d k"
    by (simp add: map_of_store retained_def)
  moreover from Cons.prems have "map_of (load_recs lo ?d (Suc a) recs) k = map_of ?d k"
    by (intro Cons.IH) simp
  ultimately show ?case by simp
qed

lemma load_recs_last_writer:
  assumes "i < length recs" and "retained lo (recs ! i)" and "k \<in> set (keys_of (recs ! i))"
    and "\<forall>j. i < j \<and> j < length recs \<and> retained lo (recs ! j) \<longrightarrow> k \<notin> set (keys_of (recs ! j))"
  shows "map_of (load_recs lo d a recs) k = Some (a + i)"
  using assms
proof (induction recs arbitrary: d a i)
  case Nil
  then show ?case by simp
next
  case (Cons r recs)
  let ?d = "if lo \<or> \<not> is_obsolete r
            then fold (\<lambda>alt d'. AList.update alt a d') (alt_ids r) (AList.update (goid r) a d)
            else d"
  show ?case
  proof (cases i)
    case 0
    with Cons.prems(2,3) have here: "map_of ?d k = Some a"
      by (simp add: map_of_store retained_def)
    have "\<forall>r'\<in>set recs. retained lo r' \<longrightarrow> k \<notin> set (keys_of r')"
    proof (intro ballI impI)
      fix r' assume r': "r' \<in> set recs" and ret: "retained lo r'"
      from r' obtain j where j: "j < length recs" "recs ! j = r'" by (auto simp: in_set_conv_nth)
      from Cons.prems(4)[rule_format, of "Suc j"] 0 j ret show "k \<notin> set (keys_of r')" by simp
    qed
    from load_recs_untouched[OF this, of ?d "Suc a"] here 0 show ?thesis by simp
  next
    case (Suc i')
    with Cons.prems have a: "i' < length recs" "retained lo (recs ! i')" "k \<in> set (keys_of (recs ! i'))"
      by simp_all
    have b: "\<forall>j. i' < j \<and> j < length recs \<and> retained lo (recs ! j) \<longrightarrow> k \<notin> set (keys_of (recs ! j))"
    proof (intro allI impI)
      fix j assume "i' < j \<and> j < length recs \<and> retained lo (recs ! j)"
      with Cons.prems(4)[rule_format, of "Suc j"] Suc show "k \<notin> set (keys_of (recs ! j))" by simp
    qed
    from Cons.IH[OF a b, of ?d "Suc a"] Suc show ?thesis by simp
  qed
qed

text \<open>
  C4, as the code has it.  Record \<open>i\<close> of the file is retained, \<open>alt\<close> is one of the
  alternate identifiers of its Term object, and no retained record that comes later in
  the file has \<open>alt\<close> or the Term's primary identifier as its own primary or alternate
  identifier.  Then, in the assembled graph, looking up \<open>alt\<close> and looking up the primary
  identifier both return that Term object.
\<close>

theorem alt_id_resolves_to_its_term:
  assumes init: "OBOReader_init file (Some ls) optional = Inr reader"
    and iter: "OBOReader_iter reader ls = Inr (recs, reader')"
    and load: "load_obo_file lim file (Some ls) optional load_obsolete = Inr g"
    and i: "i < length recs" and ret: "retained load_obsolete (recs ! i)"
    and alt: "alt \<in> set (alt_ids (heap g i))"
    and later: "\<forall>j. i < j \<and> j < length recs \<and> retained load_obsolete (recs ! j) \<longrightarrow>
                  alt \<notin> set (keys_of (recs ! j)) \<and> goid (heap g i) \<notin> set (keys_of (recs ! j))"
  shows "map_of (terms g) alt = Some i \<and> map_of (terms g) (goid (heap g i)) = Some i"
proof -
  from load init iter have po: "populate_terms lim
           \<lparr> terms = load_recs load_obsolete [] 0 recs, heap = heap_of recs,
             dag_typedefs = typedefs reader', dag_optional_attrs = optional_attrs reader' \<rparr> = Inr g"
    by (simp add: load_obo_file_def)
  from populate_terms_ids[OF po]
  have t: "terms g = load_recs load_obsolete [] 0 recs" and s: "same_ids (heap_of recs) (heap g)"
    by simp_all
  from s i have ids: "goid (heap g i) = goid (recs ! i)" "alt_ids (heap g i) = alt_ids (recs ! i)"
    by (simp_all add: same_ids_def heap_of_def)
  from alt ids have k1: "alt \<in> set (keys_of (recs ! i))" by (simp add: keys_of_def)
  have k2: "goid (heap g i) \<in> set (keys_of (recs ! i))" using ids by (simp add: keys_of_def)
  from later have l1: "\<forall>j. i < j \<and> j < length recs \<and> retained load_obsolete (recs ! j) \<longrightarrow>
                  alt \<notin> set (keys_of (recs ! j))"
    and l2: "\<forall>j. i < j \<and> j < length recs \<and> retained load_obsolete (recs ! j) \<longrightarrow>
                  goid (heap g i) \<notin> set (keys_of (recs ! j))"
    by blast+
  from load_recs_last_writer[OF i ret k1 l1, of "[]" 0] load_recs_last_writer[OF i ret k2 l2, of "[]" 0] t
  show ?thesis by simp
qed

subsection \<open>Paths to the top\<close>

lemma is_chain_snoc:
  "is_chain h (xs @ [a]) = (is_chain h xs \<and> (xs = [] \<or> last xs \<in> set (parents (h a))))"
proof (induction h xs rule: is_chain.induct)
  case (1 h)
  show ?case by simp
next
  case (2 h x)
  show ?case by simp
next
  case (3 h x y ys)
  then show ?case by auto
qed

lemma level_zero_no_parents:
  assumes "lvl_ok h" and "level (h a) = Some 0"
  shows "parents (h a) = []"
  using lvl_ok_value[OF assms] by (simp split: if_splits)

lemma root_path_root:
  assumes ok: "lvl_ok h" and z: "level (h a) = Some 0"
  shows "root_path h a xs = (xs = [a])"
proof
  assume r: "root_path h a xs"
  then have ne: "xs \<noteq> []" and l: "last xs = a" and c: "is_chain h xs"
    by (simp_all add: root_path_def)
  from ne l obtain ys where xs: "xs = ys @ [a]"
    by (metis append_butlast_last_id)
  from c xs level_zero_no_parents[OF ok z] have "ys = []"
    by (simp add: is_chain_snoc)
  with xs show "xs = [a]" by simp
next
  assume "xs = [a]"
  with z show "root_path h a xs" by (simp add: root_path_def)
qed

lemma root_path_step:
  assumes nz: "level (h a) \<noteq> Some 0"
  shows "root_path h a xs = (\<exists>p\<in>set (parents (h a)). \<exists>ys. root_path h p ys \<and> xs = ys @ [a])"
proof
  assume r: "root_path h a xs"
  then have ne: "xs \<noteq> []" and l: "last xs = a" and z: "level (h (hd xs)) = Some 0"
    and c: "is_chain h xs"
    by (simp_all add: root_path_def)
  from ne l obtain ys where xs: "xs = ys @ [a]"
    by (metis append_butlast_last_id)
  have yne: "ys \<noteq> []"
  proof
    assume "ys = []"
    with xs z nz show False by simp
  qed
  with c xs have p: "last ys \<in> set (parents (h a))" and cy: "is_chain h ys"
    by (simp_all add: is_chain_snoc)
  from yne xs z have "level (h (hd ys)) = Some 0" by simp
  with yne cy have "root_path h (last ys) ys" by (simp add: root_path_def)
  with p xs show "\<exists>p\<in>set (parents (h a)). \<exists>ys. root_path h p ys \<and> xs = ys @ [a]" by blast
next
  assume "\<exists>p\<in>set (parents (h a)). \<exists>ys. root_path h p ys \<and> xs = ys @ [a]"
  then obtain p ys where p: "p \<in> set (parents (h a))" and r: "root_path h p ys"
    and xs: "xs = ys @ [a]"
    by blast
  from r have "ys \<noteq> []" "last ys = p" "level (h (hd ys)) = Some 0" "is_chain h ys"
    by (simp_all add: root_path_def)
  with p xs show "root_path h a xs"
    by (simp add: root_path_def is_chain_snoc)
qed

lemma paths_to_top_recursive_Suc:
  "paths_to_top_recursive (Suc n) h a =
     (if level (h a) = Some 0 then Inr [[a]]
      else (case run_list (\<lambda>h' p. (case paths_to_top_recursive n h' p of
                                      Inl e \<Rightarrow> Inl e | Inr tps \<Rightarrow> Inr (h', tps))) h (parents (h a)) of
             Inl e \<Rightarrow> Inl e
           | Inr (_, tpss) \<Rightarrow> Inr (map (\<lambda>top_path. top_path @ [a]) (concat tpss))))"
  by simp

lemma run_list_pure:
  assumes "\<forall>p\<in>set ps. f p = Inr (g p)"
  shows "run_list (\<lambda>h' p. (case f p of Inl e \<Rightarrow> Inl e | Inr v \<Rightarrow> Inr (h', v))) h ps
           = Inr (h, map g ps)"
  using assms by (induction ps) simp_all

lemma paths_to_top_recursive_complete:
  assumes lo: "lvl_ok h" and dok: "dpt_ok h"
  shows "depth (h a) = Some d \<Longrightarrow> level (h a) \<noteq> None \<Longrightarrow> d < n \<Longrightarrow>
           \<exists>paths. paths_to_top_recursive n h a = Inr paths \<and> set paths = {xs. root_path h a xs}"
proof (induction n arbitrary: a d)
  case 0
  then show ?case by simp
next
  case (Suc n)
  show ?case
  proof (cases "level (h a) = Some 0")
    case True
    then have "paths_to_top_recursive (Suc n) h a = Inr [[a]]"
      by (simp add: paths_to_top_recursive_Suc del: paths_to_top_recursive.simps)
    moreover have "{xs. root_path h a xs} = {[a]}"
      using root_path_root[of h a, OF lo True] by auto
    ultimately show ?thesis by simp
  next
    case False
    from Suc.prems(2) obtain l where l: "level (h a) = Some l" by blast
    let ?ps = "parents (h a)"
    have each: "\<forall>p\<in>set ?ps. \<exists>paths. paths_to_top_recursive n h p = Inr paths \<and>
                   set paths = {xs. root_path h p xs}"
    proof
      fix p assume p: "p \<in> set ?ps"
      from dpt_parent_less[OF dok Suc.prems(1) p] obtain dp where
        dp: "depth (h p) = Some dp" "dp < d" by blast
      from lvl_ok_parent[OF lo l p] have lp: "level (h p) \<noteq> None" .
      from dp(2) Suc.prems(3) have "dp < n" by simp
      from Suc.IH[OF dp(1) lp this]
      show "\<exists>paths. paths_to_top_recursive n h p = Inr paths \<and> set paths = {xs. root_path h p xs}" .
    qed
    define g where "g p = projr (paths_to_top_recursive n h p)" for p
    from each have gp: "\<forall>p\<in>set ?ps. paths_to_top_recursive n h p = Inr (g p)"
      and gs: "\<forall>p\<in>set ?ps. set (g p) = {xs. root_path h p xs}"
      unfolding g_def by auto
    have rl: "run_list (\<lambda>h' p. (case paths_to_top_recursive n h p of
                                   Inl e \<Rightarrow> Inl e | Inr tps \<Rightarrow> Inr (h', tps))) h ?ps
               = Inr (h, map g ?ps)"
      by (rule run_list_pure[OF gp])
    have same: "run_list (\<lambda>h' p. (case paths_to_top_recursive n h' p of
                                   Inl e \<Rightarrow> Inl e | Inr tps \<Rightarrow> Inr (h', tps))) h' ps
               = (case run_list (\<lambda>h'' p. (case paths_to_top_recursive n h' p of
                                   Inl e \<Rightarrow> Inl e | Inr tps \<Rightarrow> Inr (h'', tps))) h' ps of
                    Inl e \<Rightarrow> Inl e | Inr r \<Rightarrow> Inr r)" for h' ps
      by (induction ps) (auto split: sum.splits)
    from same[of h ?ps] rl
    have rl': "run_list (\<lambda>h' p. (case paths_to_top_recursive n h' p of
                                   Inl e \<Rightarrow> Inl e | Inr tps \<Rightarrow> Inr (h', tps))) h ?ps
               = Inr (h, map g ?ps)"
      by simp
    have res: "paths_to_top_recursive (Suc n) h a
                 = Inr (map (\<lambda>top_path. top_path @ [a]) (concat (map g ?ps)))"
      using False rl' by (simp add: paths_to_top_recursive_Suc del: paths_to_top_recursive.simps)
    have "set (map (\<lambda>top_path. top_path @ [a]) (concat (map g ?ps)))
            = {xs. \<exists>p\<in>set ?ps. \<exists>ys. root_path h p ys \<and> xs = ys @ [a]}"
      using gs by auto
    also have "\<dots> = {xs. root_path h a xs}"
      using root_path_step[of h a, OF False] by simp
    finally show ?thesis using res by blast
  qed
qed

lemma level_nonroot:
  assumes "lvl_ok h" and "level (h a) = Some l" and "parents (h a) \<noteq> []"
  shows "level (h a) \<noteq> Some 0"
  using lvl_ok_value[OF assms(1,2)] assms(2,3) by simp

lemma paths_to_top_recursive_root:
  assumes "level (h r) = Some 0"
  shows "paths_to_top_recursive (Suc k) h r = Inr [[r]]"
  using assms by (simp add: paths_to_top_recursive_Suc del: paths_to_top_recursive.simps)

lemma paths_to_top_recursive_one_parent:
  assumes "level (h m) \<noteq> Some 0" and "parents (h m) = [r]"
    and "paths_to_top_recursive k h r = Inr ps"
  shows "paths_to_top_recursive (Suc k) h m = Inr (map (\<lambda>tp. tp @ [m]) ps)"
  using assms by (simp add: paths_to_top_recursive_Suc del: paths_to_top_recursive.simps)

lemma paths_to_top_recursive_two_parents:
  assumes "level (h a) \<noteq> Some 0" and "parents (h a) = [m1, m2]"
    and "paths_to_top_recursive k h m1 = Inr ps1" and "paths_to_top_recursive k h m2 = Inr ps2"
  shows "paths_to_top_recursive (Suc k) h a = Inr (map (\<lambda>tp. tp @ [a]) (ps1 @ ps2))"
  using assms by (simp add: paths_to_top_recursive_Suc del: paths_to_top_recursive.simps)

lemma diamond_paths:
  assumes lo: "lvl_ok h" and la: "level (h a) \<noteq> None"
    and pa: "parents (h a) = [m1, m2]" and p1: "parents (h m1) = [r]" and p2: "parents (h m2) = [r]"
    and pr: "parents (h r) = []"
  shows "paths_to_top_recursive (Suc (Suc (Suc k))) h a = Inr [[r, m1, a], [r, m2, a]]"
proof -
  from la obtain l where l: "level (h a) = Some l" by blast
  from lvl_ok_parent[OF lo l, of m1] pa obtain l1 where l1: "level (h m1) = Some l1" by auto
  from lvl_ok_parent[OF lo l, of m2] pa obtain l2 where l2: "level (h m2) = Some l2" by auto
  from lvl_ok_parent[OF lo l1, of r] p1 obtain lr where lr: "level (h r) = Some lr" by auto
  from lvl_ok_value[OF lo lr] pr lr have zr: "level (h r) = Some 0" by simp
  have na: "level (h a) \<noteq> Some 0" using level_nonroot[of h a l, OF lo l] pa by simp
  have n1: "level (h m1) \<noteq> Some 0" using level_nonroot[of h m1 l1, OF lo l1] p1 by simp
  have n2: "level (h m2) \<noteq> Some 0" using level_nonroot[of h m2 l2, OF lo l2] p2 by simp
  have r: "paths_to_top_recursive (Suc k) h r = Inr [[r]]"
    by (rule paths_to_top_recursive_root[of h r k, OF zr])
  have m1: "paths_to_top_recursive (Suc (Suc k)) h m1 = Inr [[r, m1]]"
    using paths_to_top_recursive_one_parent[of h m1 r "Suc k", OF n1 p1 r] by simp
  have m2: "paths_to_top_recursive (Suc (Suc k)) h m2 = Inr [[r, m2]]"
    using paths_to_top_recursive_one_parent[of h m2 r "Suc k", OF n2 p2 r] by simp
  from paths_to_top_recursive_two_parents[of h a m1 m2 "Suc (Suc k)", OF na pa m1 m2] show ?thesis by simp
qed

text \<open>
  C7.  In every graph that \<^verbatim>\<open>load_obo_file\<close> assembles, for every identifier of the
  graph, \<^verbatim>\<open>paths_to_top\<close> returns as soon as it may nest deeper than the depth of the
  Term, and the paths it returns are exactly the root paths of the Term: the chains of
  parents that start at a Term of level 0 and end at the given Term.  A Term with two
  different parents that both have the same root as their only parent gets exactly the
  two paths through them.
\<close>

theorem paths_to_top_gives_all_root_paths:
  assumes load: "load_obo_file lim file contents optional load_obsolete = Inr g"
    and t: "map_of (terms g) term = Some a"
  shows "(\<exists>d. depth (heap g a) = Some d \<and>
            (\<forall>n>d. \<exists>paths. paths_to_top n g term = Inr (Some paths) \<and>
                      set paths = {xs. root_path (heap g) a xs}))
       \<and> (\<forall>m1 m2 r n. parents (heap g a) = [m1, m2] \<and> m1 \<noteq> m2 \<and>
              parents (heap g m1) = [r] \<and> parents (heap g m2) = [r] \<and>
              parents (heap g r) = [] \<and> 3 \<le> n \<longrightarrow>
              paths_to_top n g term = Inr (Some [[r, m1, a], [r, m2, a]]))"
proof -
  from t have "(term, a) \<in> set (terms g)" by (rule map_of_SomeD)
  then have v: "a \<in> set (dag_values g)" by (force simp: dag_values_def)
  from load_obo_file_metrics[OF load] v obtain l d where
    ok: "lvl_ok (heap g)" "dpt_ok (heap g)"
    and s: "level (heap g a) = Some l" "depth (heap g a) = Some d"
    by auto
  have general: "\<forall>n>d. \<exists>paths. paths_to_top n g term = Inr (Some paths) \<and>
                      set paths = {xs. root_path (heap g) a xs}"
  proof (intro allI impI)
    fix n assume "d < n"
    from paths_to_top_recursive_complete[OF ok s(2) _ this] s(1) obtain paths where
      "paths_to_top_recursive n (heap g) a = Inr paths" "set paths = {xs. root_path (heap g) a xs}"
      by auto
    with t show "\<exists>paths. paths_to_top n g term = Inr (Some paths) \<and>
                      set paths = {xs. root_path (heap g) a xs}"
      by (simp add: paths_to_top_def)
  qed
  have diamond: "\<forall>m1 m2 r n. parents (heap g a) = [m1, m2] \<and> m1 \<noteq> m2 \<and>
              parents (heap g m1) = [r] \<and> parents (heap g m2) = [r] \<and>
              parents (heap g r) = [] \<and> 3 \<le> n \<longrightarrow>
              paths_to_top n g term = Inr (Some [[r, m1, a], [r, m2, a]])"
  proof (intro allI impI)
    fix m1 m2 r and n :: nat
    assume h: "parents (heap g a) = [m1, m2] \<and> m1 \<noteq> m2 \<and>
              parents (heap g m1) = [r] \<and> parents (heap g m2) = [r] \<and>
              parents (heap g r) = [] \<and> 3 \<le> n"
    then obtain k where n: "n = Suc (Suc (Suc k))"
      by (metis add_Suc_right add_Suc_shift le_Suc_ex numeral_3_eq_3 plus_nat.add_0)
    from h have pa: "parents (heap g a) = [m1, m2]" and p1: "parents (heap g m1) = [r]"
      and p2: "parents (heap g m2) = [r]" and pr: "parents (heap g r) = []"
      by blast+
    from s(1) have la: "level (heap g a) \<noteq> None" by simp
    from diamond_paths[OF ok(1) la pa p1 p2 pr, of k] t n
    show "paths_to_top n g term = Inr (Some [[r, m1, a], [r, m2, a]])"
      by (simp add: paths_to_top_def)
  qed
  from s(2) general diamond show ?thesis by blast
qed

subsection \<open>Relationships and their inverses\<close>

lemma rel_grow_refl: "rel_grow h h"
  by (simp add: rel_grow_def)

lemma rel_grow_trans: "rel_grow h h1 \<Longrightarrow> rel_grow h1 h2 \<Longrightarrow> rel_grow h h2"
  by (simp add: rel_grow_def)

lemma rel_grow_keeps: "keeps attrs h h' \<Longrightarrow> rel_grow h h'"
  by (simp add: rel_grow_def rel_mem_def rel_of_def keeps_def)

lemma rel_growD: "rel_grow h h' \<Longrightarrow> rel_mem h b k x \<Longrightarrow> rel_mem h' b k x"
  by (simp add: rel_grow_def)

lemma rel_get_update:
  "rel_get (AList.update k v d) k' = (if k' = k then v else rel_get d k')"
  by (simp add: rel_get_def update_conv')

lemma rel_of_setattr: "rel_of (setattr t ''relationship'' (Rel d)) = d"
  by (simp add: rel_of_def setattr_def update_conv')

lemma rel_add_effect:
  assumes "rel_add t k a = Inr t'"
  shows "a \<in> set (rel_get (rel_of t') k) \<and>
         (\<forall>k' x. x \<in> set (rel_get (rel_of t) k') \<longrightarrow> x \<in> set (rel_get (rel_of t') k'))"
proof (cases "hasattr t ''relationship''")
  case False
  then have none: "map_of (attrs t) ''relationship'' = None" by (simp add: hasattr_def)
  from assms False have t': "t' = setattr t ''relationship'' (Rel [(k, [a])])"
    by (simp add: rel_add_def)
  from none have "rel_of t = []" by (simp add: rel_of_def)
  then show ?thesis unfolding t' rel_of_setattr by (simp add: rel_get_def)
next
  case True
  show ?thesis
  proof (cases "map_of (attrs t) ''relationship''")
    case None
    with assms True show ?thesis by (simp add: rel_add_def)
  next
    case (Some v)
    show ?thesis
    proof (cases v)
      case (Rel d)
      with assms True Some
      have t': "t' = setattr t ''relationship'' (Rel (AList.update k (List.insert a (rel_get d k)) d))"
        by (simp add: rel_add_def)
      from Some Rel have "rel_of t = d" by (simp add: rel_of_def)
      then show ?thesis unfolding t' rel_of_setattr by (simp add: rel_get_update)
    qed (use assms True Some in \<open>simp_all add: rel_add_def\<close>)
  qed
qed

lemma rel_grow_upd:
  assumes "\<forall>k' x. x \<in> set (rel_get (rel_of (h t)) k') \<longrightarrow> x \<in> set (rel_get (rel_of t') k')"
  shows "rel_grow h (h(t := t'))"
  using assms by (simp add: rel_grow_def rel_mem_def)

lemma invert_targets_effect:
  assumes "invert_targets h a k ts = Inr h'"
  shows "rel_grow h h' \<and> (\<forall>t\<in>set ts. rel_mem h' t k a)"
  using assms
proof (induction ts arbitrary: h)
  case Nil
  then show ?case by (simp add: rel_grow_refl)
next
  case (Cons t ts)
  from Cons.prems obtain t' where t': "rel_add (h t) k a = Inr t'"
    and r: "invert_targets (h(t := t')) a k ts = Inr h'"
    by (cases "rel_add (h t) k a") auto
  from rel_add_effect[OF t'] have g1: "rel_grow h (h(t := t'))"
    and here: "rel_mem (h(t := t')) t k a"
    by (simp_all add: rel_grow_upd rel_mem_def)
  from Cons.IH[OF r] have g2: "rel_grow (h(t := t')) h'" and rest: "\<forall>t\<in>set ts. rel_mem h' t k a"
    by blast+
  from rel_growD[OF g2 here] rest rel_grow_trans[OF g1 g2] show ?case by simp
qed

lemma invert_items_effect:
  assumes "invert_items tds h a n ks = Inr h'"
  shows "rel_grow h h' \<and>
         (\<forall>key\<in>set ks. \<forall>td y. map_of tds key = Some td \<and> inverse_of td \<noteq> [] \<and> rel_mem h a key y
             \<longrightarrow> rel_mem h' y (inverse_of td) a)"
  using assms
proof (induction ks arbitrary: h)
  case Nil
  then show ?case by (simp add: rel_grow_refl)
next
  case (Cons k ks)
  from Cons.prems obtain td where td: "map_of tds k = Some td"
    by (cases "map_of tds k") auto
  let ?m = "if inverse_of td \<noteq> []
            then invert_targets h a (inverse_of td) (rel_get (rel_of (h a)) k) else Inr h"
  from Cons.prems td obtain h1 where h1: "?m = Inr h1"
    and r: "invert_items tds h1 a n ks = Inr h'"
    by (cases ?m) (auto split: if_splits)
  have s1: "rel_grow h h1 \<and> (inverse_of td \<noteq> [] \<longrightarrow> (\<forall>y. rel_mem h a k y \<longrightarrow> rel_mem h1 y (inverse_of td) a))"
  proof (cases "inverse_of td \<noteq> []")
    case True
    with h1 have "invert_targets h a (inverse_of td) (rel_get (rel_of (h a)) k) = Inr h1" by simp
    from invert_targets_effect[OF this] True show ?thesis by (simp add: rel_mem_def)
  next
    case False
    with h1 show ?thesis by (simp add: rel_grow_refl)
  qed
  from Cons.IH[OF r] have g2: "rel_grow h1 h'"
    and rest: "\<forall>key\<in>set ks. \<forall>td y. map_of tds key = Some td \<and> inverse_of td \<noteq> [] \<and> rel_mem h1 a key y
             \<longrightarrow> rel_mem h' y (inverse_of td) a"
    by blast+
  from s1 have g1: "rel_grow h h1" by blast
  have "\<forall>key\<in>set (k # ks). \<forall>td y. map_of tds key = Some td \<and> inverse_of td \<noteq> [] \<and> rel_mem h a key y
             \<longrightarrow> rel_mem h' y (inverse_of td) a"
  proof (intro ballI allI impI)
    fix key td' y
    assume key: "key \<in> set (k # ks)"
      and c: "map_of tds key = Some td' \<and> inverse_of td' \<noteq> [] \<and> rel_mem h a key y"
    show "rel_mem h' y (inverse_of td') a"
    proof (cases "key = k")
      case True
      with c td have "td' = td" by simp
      with s1 c True have "rel_mem h1 y (inverse_of td') a" by blast
      from rel_growD[OF g2 this] show ?thesis .
    next
      case False
      with key have "key \<in> set ks" by simp
      moreover from c rel_growD[OF g1] have "rel_mem h1 a key y" by blast
      ultimately show ?thesis using rest c by blast
    qed
  qed
  with rel_grow_trans[OF g1 g2] show ?case by blast
qed

lemma rel_mem_key:
  assumes "rel_mem h a key y"
  shows "\<exists>d. map_of (attrs (h a)) ''relationship'' = Some (Rel d) \<and> key \<in> set (map fst d)"
proof -
  from assms have y: "y \<in> set (rel_get (rel_of (h a)) key)" by (simp add: rel_mem_def)
  then have ne: "rel_of (h a) \<noteq> []" by (auto simp: rel_get_def)
  then obtain d where d: "map_of (attrs (h a)) ''relationship'' = Some (Rel d)"
    by (auto simp: rel_of_def split: option.splits attr.splits)
  then have "rel_of (h a) = d" by (simp add: rel_of_def)
  with y obtain ts where "map_of d key = Some ts"
    by (cases "map_of d key") (auto simp: rel_get_def)
  then have "key \<in> fst ` set d" by (metis map_of_eq_None_iff option.distinct(1))
  with d show ?thesis by simp
qed

lemma invert_rec_effect:
  assumes "invert_rec tds h a = Inr h'"
  shows "rel_grow h h' \<and>
         (\<forall>key td y. map_of tds key = Some td \<and> inverse_of td \<noteq> [] \<and> rel_mem h a key y
             \<longrightarrow> rel_mem h' y (inverse_of td) a)"
proof (cases "map_of (attrs (h a)) ''relationship''")
  case None
  then have "\<not> hasattr (h a) ''relationship''" by (simp add: hasattr_def GOTerm_declared_def)
  with assms have "h' = h" by (simp add: invert_rec_def)
  moreover from None have "\<not> rel_mem h a key y" for key y
    using rel_mem_key[of h a key y] by auto
  ultimately show ?thesis by (simp add: rel_grow_refl)
next
  case (Some v)
  then have ha: "hasattr (h a) ''relationship''" by (simp add: hasattr_def)
  show ?thesis
  proof (cases v)
    case (Rel d)
    with assms ha Some have it: "invert_items tds h a (length d) (map fst d) = Inr h'"
      by (simp add: invert_rec_def)
    from invert_items_effect[OF it] have g: "rel_grow h h'"
      and e: "\<forall>key\<in>set (map fst d). \<forall>td y. map_of tds key = Some td \<and> inverse_of td \<noteq> [] \<and> rel_mem h a key y
             \<longrightarrow> rel_mem h' y (inverse_of td) a"
      by blast+
    have "\<forall>key td y. map_of tds key = Some td \<and> inverse_of td \<noteq> [] \<and> rel_mem h a key y
             \<longrightarrow> rel_mem h' y (inverse_of td) a"
    proof (intro allI impI)
      fix key td y
      assume c: "map_of tds key = Some td \<and> inverse_of td \<noteq> [] \<and> rel_mem h a key y"
      with rel_mem_key[of h a key y] Some Rel have "key \<in> set (map fst d)" by auto
      with e c show "rel_mem h' y (inverse_of td) a" by blast
    qed
    with g show ?thesis by blast
  qed (use assms ha Some in \<open>simp_all add: invert_rec_def\<close>)
qed

lemma populate_rec_rel:
  assumes run: "populate_rec lim tds h a = Inr h'"
  shows "rel_grow h h' \<and>
         (\<forall>key td y. map_of tds key = Some td \<and> inverse_of td \<noteq> [] \<and> rel_mem h a key y
             \<longrightarrow> rel_mem h' y (inverse_of td) a)"
proof -
  let ?h1 = "add_children h a (parents (h a))"
  from run obtain h2 where h2: "invert_rec tds ?h1 a = Inr h2" and k: "keeps attrs h2 h'"
    by (rule populate_rec_frames)
  have g1: "rel_grow h ?h1" by (rule rel_grow_keeps[OF add_children_keeps(4)])
  from invert_rec_effect[OF h2] have g2: "rel_grow ?h1 h2"
    and e: "\<forall>key td y. map_of tds key = Some td \<and> inverse_of td \<noteq> [] \<and> rel_mem ?h1 a key y
             \<longrightarrow> rel_mem h2 y (inverse_of td) a"
    by blast+
  have g3: "rel_grow h2 h'" by (rule rel_grow_keeps[OF k])
  have "\<forall>key td y. map_of tds key = Some td \<and> inverse_of td \<noteq> [] \<and> rel_mem h a key y
             \<longrightarrow> rel_mem h' y (inverse_of td) a"
    using e rel_growD[OF g1] rel_growD[OF g3] by blast
  with g1 g2 g3 show ?thesis by (blast intro: rel_grow_trans)
qed

lemma populate_loop_rel:
  assumes "populate_loop lim tds h as = Inr h'"
  shows "rel_grow h h' \<and>
         (\<forall>a\<in>set as. \<forall>key td y. map_of tds key = Some td \<and> inverse_of td \<noteq> [] \<and> rel_mem h a key y
             \<longrightarrow> rel_mem h' y (inverse_of td) a)"
  using assms
proof (induction as arbitrary: h)
  case Nil
  then show ?case by (simp add: rel_grow_refl)
next
  case (Cons a as)
  from Cons.prems obtain h1 where h1: "populate_rec lim tds h a = Inr h1"
    and r: "populate_loop lim tds h1 as = Inr h'"
    by (cases "populate_rec lim tds h a") auto
  from populate_rec_rel[OF h1] have g1: "rel_grow h h1"
    and e1: "\<forall>key td y. map_of tds key = Some td \<and> inverse_of td \<noteq> [] \<and> rel_mem h a key y
             \<longrightarrow> rel_mem h1 y (inverse_of td) a"
    by blast+
  from Cons.IH[OF r] have g2: "rel_grow h1 h'"
    and e2: "\<forall>a\<in>set as. \<forall>key td y. map_of tds key = Some td \<and> inverse_of td \<noteq> [] \<and> rel_mem h1 a key y
             \<longrightarrow> rel_mem h' y (inverse_of td) a"
    by blast+
  have "\<forall>b\<in>set (a # as). \<forall>key td y. map_of tds key = Some td \<and> inverse_of td \<noteq> [] \<and> rel_mem h b key y
             \<longrightarrow> rel_mem h' y (inverse_of td) b"
  proof (intro ballI allI impI)
    fix b key td y
    assume b: "b \<in> set (a # as)"
      and c: "map_of tds key = Some td \<and> inverse_of td \<noteq> [] \<and> rel_mem h b key y"
    show "rel_mem h' y (inverse_of td) b"
    proof (cases "b = a")
      case True
      with e1 c have "rel_mem h1 y (inverse_of td) a" by blast
      from rel_growD[OF g2 this] True show ?thesis by simp
    next
      case False
      with b have "b \<in> set as" by simp
      moreover from c rel_growD[OF g1] have "rel_mem h1 b key y" by blast
      ultimately show ?thesis using e2 c by blast
    qed
  qed
  with rel_grow_trans[OF g1 g2] show ?case by blast
qed

lemma resolve_mem:
  assumes "resolve d ts = Inr as" and "yid \<in> set ts" and "map_of d yid = Some y"
  shows "y \<in> set as"
  using assms
proof (induction ts arbitrary: as)
  case Nil
  then show ?case by simp
next
  case (Cons t ts)
  from Cons.prems(1) obtain a where a: "map_of d t = Some a"
    by (cases "map_of d t") auto
  with Cons.prems(1) obtain as' where as': "resolve d ts = Inr as'" and e: "as = a # as'"
    by (cases "resolve d ts") auto
  show ?case
  proof (cases "yid = t")
    case True
    with a Cons.prems(3) e show ?thesis by simp
  next
    case False
    with Cons.prems(2) have "yid \<in> set ts" by simp
    from Cons.IH[OF as' this Cons.prems(3)] e show ?thesis by simp
  qed
qed

lemma resolve_items_effect:
  assumes "resolve_items d rel its = Inr rel'"
  shows "(\<forall>k x. x \<in> set (rel_get rel k) \<longrightarrow> x \<in> set (rel_get rel' k)) \<and>
         (\<forall>k ts yid y. (k, ts) \<in> set its \<and> yid \<in> set ts \<and> map_of d yid = Some y
             \<longrightarrow> y \<in> set (rel_get rel' k))"
  using assms
proof (induction its arbitrary: rel)
  case Nil
  then show ?case by simp
next
  case (Cons it its)
  obtain k0 ts0 where it: "it = (k0, ts0)" by (cases it)
  from Cons.prems it obtain as where as: "resolve d ts0 = Inr as"
    by (cases "resolve d ts0") auto
  let ?rel1 = "AList.update k0 (List.union as (rel_get rel k0)) rel"
  from Cons.prems it as have r: "resolve_items d ?rel1 its = Inr rel'" by simp
  from Cons.IH[OF r] have g: "\<forall>k x. x \<in> set (rel_get ?rel1 k) \<longrightarrow> x \<in> set (rel_get rel' k)"
    and e: "\<forall>k ts yid y. (k, ts) \<in> set its \<and> yid \<in> set ts \<and> map_of d yid = Some y
             \<longrightarrow> y \<in> set (rel_get rel' k)"
    by blast+
  have g1: "\<forall>k x. x \<in> set (rel_get rel k) \<longrightarrow> x \<in> set (rel_get ?rel1 k)"
    by (simp add: rel_get_update)
  have h1: "\<forall>yid y. yid \<in> set ts0 \<and> map_of d yid = Some y \<longrightarrow> y \<in> set (rel_get ?rel1 k0)"
    using resolve_mem[OF as] by (auto simp: rel_get_update)
  have "\<forall>k ts yid y. (k, ts) \<in> set (it # its) \<and> yid \<in> set ts \<and> map_of d yid = Some y
             \<longrightarrow> y \<in> set (rel_get rel' k)"
  proof (intro allI impI)
    fix k ts yid y
    assume c: "(k, ts) \<in> set (it # its) \<and> yid \<in> set ts \<and> map_of d yid = Some y"
    show "y \<in> set (rel_get rel' k)"
    proof (cases "(k, ts) = it")
      case True
      with it c h1 have "y \<in> set (rel_get ?rel1 k0)" by blast
      with g True it show ?thesis by blast
    next
      case False
      with c have "(k, ts) \<in> set its" by simp
      with e c show ?thesis by blast
    qed
  qed
  with g g1 show ?case by blast
qed

lemma link_rec_rel:
  assumes run: "link_rec g a = Inr g'"
    and item: "map_of its A = Some ts" "yid \<in> set ts" "map_of (terms g) yid = Some y"
    and inv: "rel_pending (heap g) x its A y"
  shows "rel_pending (heap g') x its A y \<and> (a = x \<longrightarrow> rel_linked (heap g') x A y)"
proof (cases "a = x")
  case False
  with link_rec_facts(8)[OF run] have "heap g' x = heap g x" by simp
  with inv False show ?thesis by (simp add: rel_pending_def rel_mem_def)
next
  case True
  from run obtain ps where ps: "resolve (terms g) (raw_parents (heap g a)) = Inr ps"
    by (cases "resolve (terms g) (raw_parents (heap g a))") (simp_all add: link_rec_def)
  let ?r = "(heap g a)\<lparr>parents := ps\<rparr>"
  have ar: "attrs ?r = attrs (heap g a)" by simp
  have linked: "rel_linked (heap g') x A y"
  proof (cases "map_of (attrs (heap g x)) ''_relationship''")
    case None
    with True have "\<not> hasattr ?r ''_relationship''"
      by (simp add: hasattr_def GOTerm_declared_def)
    with run ps have "g' = g\<lparr>heap := (heap g)(a := ?r)\<rparr>" by (simp add: link_rec_def Let_def)
    with True have "attrs (heap g' x) = attrs (heap g x)" by simp
    with inv None show ?thesis by (simp add: rel_pending_def rel_linked_def rel_mem_def rel_of_def)
  next
    case (Some v)
    with inv have v: "v = RawNested its" by (simp add: rel_pending_def)
    from Some True have ha: "hasattr ?r ''_relationship''" by (simp add: hasattr_def)
    from run ps ha Some v True obtain rel where rel: "resolve_items (terms g) [] its = Inr rel"
      and g': "g' = g\<lparr>heap := (heap g)(a := delattr (setattr ?r ''relationship'' (Rel rel)) ''_relationship'')\<rparr>"
      by (cases "resolve_items (terms g) [] its") (simp_all add: link_rec_def Let_def)
    from item(1) have "(A, ts) \<in> set its" by (rule map_of_SomeD)
    with resolve_items_effect[OF rel] item(2,3) have y: "y \<in> set (rel_get rel A)" by blast
    from g' True have "attrs (heap g' x) =
        AList.delete ''_relationship'' (AList.update ''relationship'' (Rel rel) (attrs (heap g x)))"
      by (simp add: delattr_def setattr_def)
    then have "map_of (attrs (heap g' x)) ''_relationship'' = None"
      and "map_of (attrs (heap g' x)) ''relationship'' = Some (Rel rel)"
      by (simp_all add: delete_conv' update_conv')
    with y show ?thesis by (simp add: rel_linked_def rel_mem_def rel_of_def)
  qed
  then show ?thesis by (simp add: rel_pending_def rel_linked_def)
qed

lemma link_all_rel:
  assumes "link_all g as = Inr g'"
    and "map_of its A = Some ts" and "yid \<in> set ts" and "map_of (terms g) yid = Some y"
    and "rel_pending (heap g) x its A y"
  shows "rel_pending (heap g') x its A y \<and> (x \<in> set as \<longrightarrow> rel_linked (heap g') x A y)"
  using assms
proof (induction as arbitrary: g)
  case Nil
  then show ?case by simp
next
  case (Cons a as)
  from Cons.prems(1) obtain g1 where g1: "link_rec g a = Inr g1" and r: "link_all g1 as = Inr g'"
    by (cases "link_rec g a") auto
  from link_rec_rel[OF g1 Cons.prems(2,3,4,5)]
  have p1: "rel_pending (heap g1) x its A y" and l1: "a = x \<longrightarrow> rel_linked (heap g1) x A y"
    by blast+
  from link_rec_facts(1)[OF g1] Cons.prems(4) have t1: "map_of (terms g1) yid = Some y" by simp
  from Cons.IH[OF r Cons.prems(2,3) t1 p1]
  have p2: "rel_pending (heap g') x its A y" and l2: "x \<in> set as \<longrightarrow> rel_linked (heap g') x A y"
    by blast+
  have "a = x \<longrightarrow> rel_linked (heap g') x A y"
  proof
    assume ax: "a = x"
    with l1 have l: "rel_linked (heap g1) x A y" by blast
    then have "rel_pending (heap g1) x its' A y" for its'
      by (simp add: rel_pending_def rel_linked_def)
    show "rel_linked (heap g') x A y"
    proof (cases "x \<in> set as")
      case True
      with l2 show ?thesis by blast
    next
      case False
      have "heap g' x = heap g1 x" using r False
      proof (induction as arbitrary: g1)
        case Nil
        then show ?case by simp
      next
        case (Cons c cs)
        from Cons.prems(1) obtain g2 where g2: "link_rec g1 c = Inr g2" and r2: "link_all g2 cs = Inr g'"
          by (cases "link_rec g1 c") auto
        from Cons.prems(2) have "c \<noteq> x" "x \<notin> set cs" by auto
        with Cons.IH[OF r2] link_rec_facts(8)[OF g2] show ?case by simp
      qed
      with l show ?thesis by (simp add: rel_linked_def rel_mem_def)
    qed
  qed
  with p2 l2 show ?case by auto
qed

text \<open>
  C5.  The typedef table maps \<open>A\<close> to a typedef whose \<open>inverse_of\<close> is the name \<open>B\<close>
  (not the empty string, which stands for no inverse).  \<open>x\<close> is a Term of the graph that
  was parsed with a relationship \<open>A\<close> to the identifier \<open>yid\<close>, and \<open>yid\<close> names the Term
  \<open>y\<close> of the graph.  Then, in the graph that \<^verbatim>\<open>populate_terms\<close> returns, the
  relationship map of \<open>y\<close> holds \<open>x\<close> under \<open>B\<close>.
\<close>

theorem relationship_is_inverted:
  assumes run: "populate_terms lim g = Inr g'"
    and x: "x \<in> set (dag_values g)"
    and raw: "map_of (attrs (heap g x)) ''_relationship'' = Some (RawNested its)"
    and item: "map_of its A = Some ts" "yid \<in> set ts"
    and y: "map_of (terms g) yid = Some y"
    and td: "map_of (dag_typedefs g) A = Some td" "inverse_of td = B" "B \<noteq> []"
  shows "x \<in> set (rel_get (rel_of (heap g' y)) B)"
proof -
  from run obtain g1 where g1: "link_all g (dag_values g) = Inr g1"
    by (cases "link_all g (dag_values g)") (simp_all add: populate_terms_def)
  with run obtain h where h: "populate_loop lim (dag_typedefs g1) (heap g1) (dag_values g1) = Inr h"
    and g': "g' = g1\<lparr>heap := h\<rparr>"
    by (cases "populate_loop lim (dag_typedefs g1) (heap g1) (dag_values g1)")
       (simp_all add: populate_terms_def)
  from link_all_facts[OF g1] have same: "terms g1 = terms g" "dag_typedefs g1 = dag_typedefs g"
    by blast+
  from raw have "rel_pending (heap g) x its A y" by (simp add: rel_pending_def)
  from link_all_rel[OF g1 item y this] x have m: "rel_mem (heap g1) x A y"
    by (simp add: rel_linked_def)
  from x same have x1: "x \<in> set (dag_values g1)" by (simp add: dag_values_def)
  from td same have td1: "map_of (dag_typedefs g1) A = Some td \<and> inverse_of td \<noteq> [] \<and> rel_mem (heap g1) x A y"
    using m by simp
  from populate_loop_rel[OF h] have "\<forall>a\<in>set (dag_values g1).
         \<forall>key td y.
            map_of (dag_typedefs g1) key = Some td \<and>
            inverse_of td \<noteq> [] \<and> rel_mem (heap g1) a key y \<longrightarrow>
            rel_mem h y (inverse_of td) a" by blast
  from this[rule_format, OF x1 td1] td(2) have "rel_mem h y B x" by simp
  with g' show ?thesis by (simp add: rel_mem_def)
qed

subsection \<open>When the metric functions return\<close>

lemma level_ext_refl: "level_ext h h"
  by (simp add: level_ext_def level_frame_refl)

lemma level_ext_trans: "level_ext h h1 \<Longrightarrow> level_ext h1 h2 \<Longrightarrow> level_ext h h2"
  unfolding level_ext_def by (blast intro: level_frame_trans)

lemma level_ext_set: "level_ext h (h(a := (h a)\<lparr>level := Some x\<rparr>))"
  by (simp add: level_ext_def level_frame_def)

lemma init_level_ext: "init_level n h a = Inr (h', v) \<Longrightarrow> level_ext h h'"
proof (induction n arbitrary: h a h' v)
  case 0
  then show ?case by simp
next
  case (Suc n)
  show ?case
  proof (cases "level (h a)")
    case (Some l)
    with Suc.prems show ?thesis by (simp add: init_level_Suc level_ext_refl)
  next
    case None
    show ?thesis
    proof (cases "parents (h a) = []")
      case True
      with None Suc.prems have e: "h' = h(a := (h a)\<lparr>level := Some 0\<rparr>)"
        by (simp add: init_level_Suc)
      show ?thesis unfolding e by (rule level_ext_set)
    next
      case False
      with None Suc.prems obtain h1 ls where
        rl: "run_list (init_level n) h (parents (h a)) = Inr (h1, ls)"
        and e: "h' = h1(a := (h1 a)\<lparr>level := Some (Min (set ls) + 1)\<rparr>)"
        by (cases "run_list (init_level n) h (parents (h a))") (auto simp: init_level_Suc)
      have "level_ext h h1"
        by (rule run_list_rel[where R = level_ext, OF Suc.IH level_ext_refl level_ext_trans rl])
      moreover have "level_ext h1 h'" unfolding e by (rule level_ext_set)
      ultimately show ?thesis by (rule level_ext_trans)
    qed
  qed
qed

lemma within_level_ext:
  assumes e: "level_ext h h'"
  shows "within_level h n a \<Longrightarrow> within_level h' n a"
proof (induction n arbitrary: a)
  case 0
  then show ?case by simp
next
  case (Suc n)
  from e have p: "parents (h' a) = parents (h a)"
    using level_frame_keeps(2)[of h h'] by (simp add: level_ext_def keeps_def)
  from e have s: "level (h a) \<noteq> None \<longrightarrow> level (h' a) \<noteq> None"
    by (simp add: level_ext_def)
  from Suc.prems have "level (h a) \<noteq> None \<or> (\<forall>p\<in>set (parents (h a)). within_level h n p)"
    by simp
  with Suc.IH s have "level (h' a) \<noteq> None \<or> (\<forall>p\<in>set (parents (h a)). within_level h' n p)"
    by blast
  with p show ?case by simp
qed

lemma run_list_level_returns:
  assumes f: "\<And>h p. within_level h n p \<Longrightarrow> \<exists>h' v. init_level n h p = Inr (h', v)"
  shows "\<forall>p\<in>set ps. within_level h n p \<Longrightarrow> \<exists>h' vs. run_list (init_level n) h ps = Inr (h', vs)"
proof (induction ps arbitrary: h)
  case Nil
  show ?case by simp
next
  case (Cons p ps)
  from Cons.prems f[of h p] obtain h1 v where s1: "init_level n h p = Inr (h1, v)" by auto
  from within_level_ext[OF init_level_ext[OF s1]] Cons.prems
  have "\<forall>q\<in>set ps. within_level h1 n q" by simp
  from Cons.IH[OF this] obtain h2 vs where "run_list (init_level n) h1 ps = Inr (h2, vs)" by blast
  with s1 show ?case by simp
qed

lemma init_level_returns:
  "within_level h n a \<Longrightarrow> \<exists>h' v. init_level n h a = Inr (h', v)"
proof (induction n arbitrary: h a)
  case 0
  then show ?case by simp
next
  case (Suc n)
  show ?case
  proof (cases "level (h a)")
    case (Some l)
    then show ?thesis by (simp add: init_level_Suc)
  next
    case None
    show ?thesis
    proof (cases "parents (h a) = []")
      case True
      with None show ?thesis by (simp add: init_level_Suc)
    next
      case False
      from Suc.prems None have "\<forall>p\<in>set (parents (h a)). within_level h n p" by simp
      from run_list_level_returns[of n, OF Suc.IH this] obtain h1 ls where
        "run_list (init_level n) h (parents (h a)) = Inr (h1, ls)" by blast
      with None False show ?thesis by (simp add: init_level_Suc)
    qed
  qed
qed

text \<open>A rank that drops along every parent link bounds the nesting: this is the
  acyclic case.\<close>

lemma within_level_rank:
  assumes "\<And>b p. p \<in> set (parents (h b)) \<Longrightarrow> rank p < (rank b :: nat)"
  shows "rank a < n \<Longrightarrow> within_level h n a"
proof (induction n arbitrary: a)
  case 0
  then show ?case by simp
next
  case (Suc n)
  have "\<forall>p\<in>set (parents (h a)). within_level h n p"
  proof
    fix p assume "p \<in> set (parents (h a))"
    from assms[OF this] Suc.prems have "rank p < n" by simp
    then show "within_level h n p" by (rule Suc.IH)
  qed
  then show ?case by simp
qed

lemma init_level_returns_acyclic:
  assumes "\<And>b p. p \<in> set (parents (h b)) \<Longrightarrow> rank p < (rank b :: nat)" and "rank a < n"
  shows "\<exists>h' v. init_level n h a = Inr (h', v)"
  using init_level_returns[OF within_level_rank[of h rank a n]] assms by blast

lemma depth_ext_refl: "depth_ext h h"
  by (simp add: depth_ext_def depth_frame_refl)

lemma depth_ext_trans: "depth_ext h h1 \<Longrightarrow> depth_ext h1 h2 \<Longrightarrow> depth_ext h h2"
  unfolding depth_ext_def by (blast intro: depth_frame_trans)

lemma depth_ext_set: "depth_ext h (h(a := (h a)\<lparr>depth := Some x\<rparr>))"
  by (simp add: depth_ext_def depth_frame_def)

lemma init_depth_ext: "init_depth n h a = Inr (h', v) \<Longrightarrow> depth_ext h h'"
proof (induction n arbitrary: h a h' v)
  case 0
  then show ?case by simp
next
  case (Suc n)
  show ?case
  proof (cases "depth (h a)")
    case (Some l)
    with Suc.prems show ?thesis by (simp add: init_depth_Suc depth_ext_refl)
  next
    case None
    show ?thesis
    proof (cases "parents (h a) = []")
      case True
      with None Suc.prems have e: "h' = h(a := (h a)\<lparr>depth := Some 0\<rparr>)"
        by (simp add: init_depth_Suc)
      show ?thesis unfolding e by (rule depth_ext_set)
    next
      case False
      with None Suc.prems obtain h1 ls where
        rl: "run_list (init_depth n) h (parents (h a)) = Inr (h1, ls)"
        and e: "h' = h1(a := (h1 a)\<lparr>depth := Some (Max (set ls) + 1)\<rparr>)"
        by (cases "run_list (init_depth n) h (parents (h a))") (auto simp: init_depth_Suc)
      have "depth_ext h h1"
        by (rule run_list_rel[where R = depth_ext, OF Suc.IH depth_ext_refl depth_ext_trans rl])
      moreover have "depth_ext h1 h'" unfolding e by (rule depth_ext_set)
      ultimately show ?thesis by (rule depth_ext_trans)
    qed
  qed
qed

lemma within_depth_ext:
  assumes e: "depth_ext h h'"
  shows "within_depth h n a \<Longrightarrow> within_depth h' n a"
proof (induction n arbitrary: a)
  case 0
  then show ?case by simp
next
  case (Suc n)
  from e have p: "parents (h' a) = parents (h a)"
    using depth_frame_keeps(2)[of h h'] by (simp add: depth_ext_def keeps_def)
  from e have s: "depth (h a) \<noteq> None \<longrightarrow> depth (h' a) \<noteq> None"
    by (simp add: depth_ext_def)
  from Suc.prems have "depth (h a) \<noteq> None \<or> (\<forall>p\<in>set (parents (h a)). within_depth h n p)"
    by simp
  with Suc.IH s have "depth (h' a) \<noteq> None \<or> (\<forall>p\<in>set (parents (h a)). within_depth h' n p)"
    by blast
  with p show ?case by simp
qed

lemma run_list_depth_returns:
  assumes f: "\<And>h p. within_depth h n p \<Longrightarrow> \<exists>h' v. init_depth n h p = Inr (h', v)"
  shows "\<forall>p\<in>set ps. within_depth h n p \<Longrightarrow> \<exists>h' vs. run_list (init_depth n) h ps = Inr (h', vs)"
proof (induction ps arbitrary: h)
  case Nil
  show ?case by simp
next
  case (Cons p ps)
  from Cons.prems f[of h p] obtain h1 v where s1: "init_depth n h p = Inr (h1, v)" by auto
  from within_depth_ext[OF init_depth_ext[OF s1]] Cons.prems
  have "\<forall>q\<in>set ps. within_depth h1 n q" by simp
  from Cons.IH[OF this] obtain h2 vs where "run_list (init_depth n) h1 ps = Inr (h2, vs)" by blast
  with s1 show ?case by simp
qed

lemma init_depth_returns:
  "within_depth h n a \<Longrightarrow> \<exists>h' v. init_depth n h a = Inr (h', v)"
proof (induction n arbitrary: h a)
  case 0
  then show ?case by simp
next
  case (Suc n)
  show ?case
  proof (cases "depth (h a)")
    case (Some l)
    then show ?thesis by (simp add: init_depth_Suc)
  next
    case None
    show ?thesis
    proof (cases "parents (h a) = []")
      case True
      with None show ?thesis by (simp add: init_depth_Suc)
    next
      case False
      from Suc.prems None have "\<forall>p\<in>set (parents (h a)). within_depth h n p" by simp
      from run_list_depth_returns[of n, OF Suc.IH this] obtain h1 ls where
        "run_list (init_depth n) h (parents (h a)) = Inr (h1, ls)" by blast
      with None False show ?thesis by (simp add: init_depth_Suc)
    qed
  qed
qed

lemma within_depth_rank:
  assumes "\<And>b p. p \<in> set (parents (h b)) \<Longrightarrow> rank p < (rank b :: nat)"
  shows "rank a < n \<Longrightarrow> within_depth h n a"
proof (induction n arbitrary: a)
  case 0
  then show ?case by simp
next
  case (Suc n)
  have "\<forall>p\<in>set (parents (h a)). within_depth h n p"
  proof
    fix p assume "p \<in> set (parents (h a))"
    from assms[OF this] Suc.prems have "rank p < n" by simp
    then show "within_depth h n p" by (rule Suc.IH)
  qed
  then show ?case by simp
qed

lemma init_depth_returns_acyclic:
  assumes "\<And>b p. p \<in> set (parents (h b)) \<Longrightarrow> rank p < (rank b :: nat)" and "rank a < n"
  shows "\<exists>h' v. init_depth n h a = Inr (h', v)"
  using init_depth_returns[OF within_depth_rank[of h rank a n]] assms by blast

subsection \<open>No cycle in an assembled graph\<close>

lemma chain_depth:
  assumes ok: "dpt_ok h"
  shows "is_chain h (x # xs) \<Longrightarrow> depth (h (last (x # xs))) = Some d \<Longrightarrow>
           \<exists>dx. depth (h x) = Some dx \<and> dx + length xs \<le> d"
proof (induction xs arbitrary: x)
  case Nil
  then show ?case by simp
next
  case (Cons y ys)
  from Cons.prems have p: "x \<in> set (parents (h y))" and c: "is_chain h (y # ys)"
    and l: "depth (h (last (y # ys))) = Some d"
    by simp_all
  from Cons.IH[OF c l] obtain dy where dy: "depth (h y) = Some dy" "dy + length ys \<le> d" by blast
  from dpt_parent_less[OF ok dy(1) p] obtain dx where "depth (h x) = Some dx" "dx < dy" by blast
  with dy(2) show ?case by simp
qed

lemma no_parent_cycle:
  assumes "load_obo_file lim file contents optional load_obsolete = Inr g"
    and "a \<in> set (dag_values g)"
  shows "\<not> is_chain (heap g) (a # xs @ [a])"
proof
  assume c: "is_chain (heap g) (a # xs @ [a])"
  from load_obo_file_metrics[OF assms(1)] assms(2) obtain d where
    ok: "dpt_ok (heap g)" and d: "depth (heap g a) = Some d"
    by auto
  from d have "depth (heap g (last (a # xs @ [a]))) = Some d" by simp
  from chain_depth[OF ok c this] d show False by simp
qed

section \<open>Worked examples\<close>

lemma example_loaded:
  "load_obo_file 100 ''go.obo'' (Some example_obo) (ArgStr ''relationship'') False = Inr example_dag"
proof -
  have "\<not> isl example_load" by code_simp
  then show ?thesis unfolding example_dag_def example_load_def by simp
qed

lemma example_values: "dag_values example_dag = [0, 1, 1, 2, 3, 4]"
  by code_simp

lemma example_parents:
  "map (\<lambda>a. parents (heap example_dag a)) [0, 1, 2, 3, 4] = [[], [0], [0], [1, 2], []]"
  by code_simp

lemma example_twice_loaded:
  "load_obo_file 100 ''go.obo'' (Some example_twice_obo) ArgNone False = Inr example_twice_dag"
proof -
  have "\<not> isl example_twice_load" by code_simp
  then show ?thesis unfolding example_twice_dag_def example_twice_load_def by simp
qed

lemma example_twice_facts:
  "dag_values example_twice_dag = [0, 1] \<and> parents (heap example_twice_dag 1) = [0, 0]"
  by code_simp

theorem roots_have_level_and_depth_zero_witness:
  "level (heap example_dag 4) = Some 0 \<and> depth (heap example_dag 4) = Some 0"
proof -
  have a: "4 \<in> set (dag_values example_dag)" by (simp add: example_values)
  have p: "parents (heap example_dag 4) = []" using example_parents by simp
  from roots_have_level_and_depth_zero[OF example_loaded a p] show ?thesis .
qed

theorem level_at_most_depth_witness:
  "\<exists>l d. level (heap example_dag 3) = Some l \<and> depth (heap example_dag 3) = Some d \<and> l \<le> d"
proof -
  have a: "3 \<in> set (dag_values example_dag)" by (simp add: example_values)
  from level_at_most_depth[OF example_loaded a] show ?thesis by blast
qed

theorem child_listed_once_witness:
  "parents (heap example_twice_dag 1) = [0, 0] \<and>
   count_list (children (heap example_twice_dag 0)) 1 = 1"
proof -
  have a: "1 \<in> set (dag_values example_twice_dag)" using example_twice_facts by simp
  have p: "0 \<in> set (parents (heap example_twice_dag 1))" using example_twice_facts by simp
  from child_listed_once[OF example_twice_loaded a p] example_twice_facts show ?thesis by simp
qed

lemma example_metrics:
  "map (\<lambda>a. (level (heap example_dag a), depth (heap example_dag a))) [0, 1, 2, 3, 4]
     = [(Some 0, Some 0), (Some 1, Some 1), (Some 1, Some 1), (Some 2, Some 2), (Some 0, Some 0)]"
  by code_simp

lemma example_again: "populate_terms 100 example_dag = Inr example_dag_again"
proof -
  have "\<not> isl (populate_terms 100 example_dag)" by code_simp
  then show ?thesis unfolding example_dag_again_def by simp
qed

theorem populate_terms_again_keeps_metrics_witness:
  "populate_terms 100 example_dag = Inr example_dag_again \<and>
   level (heap example_dag_again 3) = Some 2 \<and> depth (heap example_dag_again 3) = Some 2"
proof -
  have f: "\<forall>a\<in>set (dag_values example_dag).
             level (heap example_dag a) \<noteq> None \<and> depth (heap example_dag a) \<noteq> None"
    using example_metrics by (simp add: example_values)
  from populate_terms_again_keeps_metrics[OF example_again f] example_metrics example_again
  show ?thesis by simp
qed

lemma all_later_drop:
  "(\<forall>j. i < j \<and> j < length xs \<and> Q (xs ! j) \<longrightarrow> P (xs ! j))
     = (\<forall>x\<in>set (drop (Suc i) xs). Q x \<longrightarrow> P x)"
proof
  assume a: "\<forall>j. i < j \<and> j < length xs \<and> Q (xs ! j) \<longrightarrow> P (xs ! j)"
  show "\<forall>x\<in>set (drop (Suc i) xs). Q x \<longrightarrow> P x"
  proof (intro ballI impI)
    fix x assume "x \<in> set (drop (Suc i) xs)" and q: "Q x"
    then obtain k where k: "k < length (drop (Suc i) xs)" "drop (Suc i) xs ! k = x"
      by (auto simp: in_set_conv_nth)
    then have "xs ! (Suc i + k) = x" "Suc i + k < length xs" by auto
    with a q show "P x" by (metis less_add_Suc1 add_Suc)
  qed
next
  assume a: "\<forall>x\<in>set (drop (Suc i) xs). Q x \<longrightarrow> P x"
  show "\<forall>j. i < j \<and> j < length xs \<and> Q (xs ! j) \<longrightarrow> P (xs ! j)"
  proof (intro allI impI)
    fix j assume j: "i < j \<and> j < length xs \<and> Q (xs ! j)"
    then have "j - Suc i < length (drop (Suc i) xs)" and "drop (Suc i) xs ! (j - Suc i) = xs ! j"
      by auto
    then have "xs ! j \<in> set (drop (Suc i) xs)"
      by (metis nth_mem)
    with a j show "P (xs ! j)" by blast
  qed
qed

lemma example_reader_ok: "OBOReader_init ''go.obo'' (Some example_obo) (ArgStr ''relationship'') = Inr example_reader"
proof -
  have "\<not> isl (OBOReader_init ''go.obo'' (Some example_obo) (ArgStr ''relationship''))" by code_simp
  then show ?thesis unfolding example_reader_def by simp
qed

lemma example_parsed_ok:
  "OBOReader_iter example_reader example_obo = Inr (fst example_parsed, snd example_parsed)"
proof -
  have "\<not> isl (OBOReader_iter example_reader example_obo)" by code_simp
  then show ?thesis unfolding example_parsed_def by simp
qed

lemma example_terms:
  "terms example_dag =
     [(''GO:1'', 0), (''GO:2'', 1), (''GO:22'', 1), (''GO:3'', 2), (''GO:4'', 3), (''GO:5'', 4)]"
  by code_simp

text \<open>C4, as stated, fails: Term 0 is in the graph under its primary identifier and
  has the alternate identifier \<^verbatim>\<open>GO:9\<close>, yet \<^verbatim>\<open>GO:9\<close> names Term 1.\<close>

theorem alt_id_names_another_term:
  "load_obo_file 100 ''go.obo'' (Some example_clash_obo) ArgNone False = Inr example_clash_dag \<and>
   map_of (terms example_clash_dag) (goid (heap example_clash_dag 0)) = Some 0 \<and>
   ''GO:9'' \<in> set (alt_ids (heap example_clash_dag 0)) \<and>
   map_of (terms example_clash_dag) ''GO:9'' = Some 1"
proof -
  have "\<not> isl (load_obo_file 100 ''go.obo'' (Some example_clash_obo) ArgNone False)" by code_simp
  then have "load_obo_file 100 ''go.obo'' (Some example_clash_obo) ArgNone False = Inr example_clash_dag"
    unfolding example_clash_dag_def by simp
  moreover have "map_of (terms example_clash_dag) (goid (heap example_clash_dag 0)) = Some 0 \<and>
   ''GO:9'' \<in> set (alt_ids (heap example_clash_dag 0)) \<and>
   map_of (terms example_clash_dag) ''GO:9'' = Some 1"
    by code_simp
  ultimately show ?thesis by blast
qed

theorem alt_id_resolves_to_its_term_witness:
  "map_of (terms example_dag) ''GO:22'' = Some 1 \<and>
   map_of (terms example_dag) (goid (heap example_dag 1)) = Some 1"
proof -
  have i: "1 < length (fst example_parsed)" by code_simp
  have r: "retained False (fst example_parsed ! 1)" by code_simp
  have a: "''GO:22'' \<in> set (alt_ids (heap example_dag 1))" by code_simp
  have "\<forall>x\<in>set (drop (Suc 1) (fst example_parsed)). retained False x \<longrightarrow>
          ''GO:22'' \<notin> set (keys_of x) \<and> goid (heap example_dag 1) \<notin> set (keys_of x)"
    by code_simp
  then have l: "\<forall>j. 1 < j \<and> j < length (fst example_parsed) \<and> retained False (fst example_parsed ! j) \<longrightarrow>
          ''GO:22'' \<notin> set (keys_of (fst example_parsed ! j)) \<and>
          goid (heap example_dag 1) \<notin> set (keys_of (fst example_parsed ! j))"
    by (rule all_later_drop[where i = 1 and xs = "fst example_parsed" and Q = "retained False"
          and P = "\<lambda>r. ''GO:22'' \<notin> set (keys_of r) \<and> goid (heap example_dag 1) \<notin> set (keys_of r)",
          THEN iffD2])
  from alt_id_resolves_to_its_term[OF example_reader_ok example_parsed_ok example_loaded i r a l]
  show ?thesis .
qed

theorem paths_to_top_gives_all_root_paths_witness:
  "paths_to_top 3 example_dag ''GO:4'' = Inr (Some [[0, 1, 3], [0, 2, 3]]) \<and>
   {xs. root_path (heap example_dag) 3 xs} = {[0, 1, 3], [0, 2, 3]}"
proof -
  have t: "map_of (terms example_dag) ''GO:4'' = Some 3" by (simp add: example_terms)
  note th = paths_to_top_gives_all_root_paths[OF example_loaded t]
  have p: "parents (heap example_dag 3) = [1, 2] \<and> (1::nat) \<noteq> 2 \<and>
           parents (heap example_dag 1) = [0] \<and> parents (heap example_dag 2) = [0] \<and>
           parents (heap example_dag 0) = [] \<and> (3::nat) \<le> 3"
    using example_parents by simp
  from th p have d: "paths_to_top 3 example_dag ''GO:4'' = Inr (Some [[0, 1, 3], [0, 2, 3]])"
    by blast
  have "depth (heap example_dag 3) = Some 2" using example_metrics by simp
  with th obtain paths where "paths_to_top 3 example_dag ''GO:4'' = Inr (Some paths)"
    "set paths = {xs. root_path (heap example_dag) 3 xs}"
    by (metis lessI numeral_3_eq_3 numeral_2_eq_2 option.inject)
  with d show ?thesis by auto
qed

lemma example_assembly: "populate_terms 100 example_unassembled = Inr example_dag"
  using example_loaded
  by (simp add: load_obo_file_def example_reader_ok example_parsed_ok example_unassembled_def split_beta)

lemma example_unassembled_facts:
  "dag_values example_unassembled = [0, 1, 1, 2, 3, 4] \<and>
   map_of (attrs (heap example_unassembled 2)) ''_relationship''
     = Some (RawNested [(''part_of'', [''GO:2''])]) \<and>
   map_of (terms example_unassembled) ''GO:2'' = Some 1 \<and>
   map_of (dag_typedefs example_unassembled) ''part_of'' = Some example_part_of"
  by code_simp

theorem relationship_is_inverted_witness:
  "2 \<in> set (rel_get (rel_of (heap example_dag 1)) ''has_part'')"
proof -
  have x: "2 \<in> set (dag_values example_unassembled)" using example_unassembled_facts by simp
  have raw: "map_of (attrs (heap example_unassembled 2)) ''_relationship''
     = Some (RawNested [(''part_of'', [''GO:2''])])"
    using example_unassembled_facts by simp
  have item: "map_of [(''part_of'', [''GO:2''])] ''part_of'' = Some [''GO:2'']" "''GO:2'' \<in> set [''GO:2'']"
    by simp_all
  have y: "map_of (terms example_unassembled) ''GO:2'' = Some 1"
    using example_unassembled_facts by simp
  have td: "map_of (dag_typedefs example_unassembled) ''part_of'' = Some example_part_of"
    "inverse_of example_part_of = ''has_part''" "''has_part'' \<noteq> []"
    using example_unassembled_facts by (simp_all add: example_part_of_def TypeDef_init_def)
  from relationship_is_inverted[OF example_assembly x raw item y td] show ?thesis .
qed

end
